theory Spec2Isabelle
  imports Main
begin

section \<open>Strings\<close>

text \<open>
  A JavaScript string is a sequence of UTF-16 code units. The embedding uses HOL's
  \<open>string\<close>, a list of 8-bit characters read as the code units 0..255 (Latin-1);
  \<open>length\<close> is the JavaScript \<open>.length\<close>. Character classes and case mapping
  below are the JavaScript ones restricted to that range.
\<close>

definition tab :: char where "tab = CHR 0x09"
definition nl :: char where "nl = CHR 0x0A"
definition cr :: char where "cr = CHR 0x0D"
definition sp :: char where "sp = CHR '' ''"
definition dq :: char where "dq = CHR 0x22"

text \<open>The class \<open>\s\<close> of a JavaScript regular expression, below code unit 256.\<close>

definition isSpace :: "char \<Rightarrow> bool" where
  "isSpace c = (c \<in> set [tab, nl, CHR 0x0B, CHR 0x0C, cr, sp, CHR 0xA0])"

text \<open>\<open>.\<close> matches every code unit but a line terminator.\<close>

definition isLineTerminator :: "char \<Rightarrow> bool" where
  "isLineTerminator c = (c = nl \<or> c = cr)"

definition upperChars :: string where
  "upperChars = ''ABCDEFGHIJKLMNOPQRSTUVWXYZ'' @
     [CHR 0xC0, CHR 0xC1, CHR 0xC2, CHR 0xC3, CHR 0xC4, CHR 0xC5, CHR 0xC6, CHR 0xC7,
      CHR 0xC8, CHR 0xC9, CHR 0xCA, CHR 0xCB, CHR 0xCC, CHR 0xCD, CHR 0xCE, CHR 0xCF,
      CHR 0xD0, CHR 0xD1, CHR 0xD2, CHR 0xD3, CHR 0xD4, CHR 0xD5, CHR 0xD6,
      CHR 0xD8, CHR 0xD9, CHR 0xDA, CHR 0xDB, CHR 0xDC, CHR 0xDD, CHR 0xDE]"

definition lowerChars :: string where
  "lowerChars = ''abcdefghijklmnopqrstuvwxyz'' @
     [CHR 0xE0, CHR 0xE1, CHR 0xE2, CHR 0xE3, CHR 0xE4, CHR 0xE5, CHR 0xE6, CHR 0xE7,
      CHR 0xE8, CHR 0xE9, CHR 0xEA, CHR 0xEB, CHR 0xEC, CHR 0xED, CHR 0xEE, CHR 0xEF,
      CHR 0xF0, CHR 0xF1, CHR 0xF2, CHR 0xF3, CHR 0xF4, CHR 0xF5, CHR 0xF6,
      CHR 0xF8, CHR 0xF9, CHR 0xFA, CHR 0xFB, CHR 0xFC, CHR 0xFD, CHR 0xFE]"

text \<open>\<open>String.prototype.toLowerCase\<close>, one code unit at a time.\<close>

definition lowerChar :: "char \<Rightarrow> char" where
  "lowerChar c = (case map_of (zip upperChars lowerChars) c of Some d \<Rightarrow> d | None \<Rightarrow> c)"

definition toLowerCase :: "string \<Rightarrow> string" where
  "toLowerCase s = map lowerChar s"

text \<open>
  Case folding of the \<open>i\<close> flag: without the \<open>u\<close> flag a pattern letter of ASCII
  matches only its two ASCII cases.
\<close>

definition asciiLower :: "char \<Rightarrow> char" where
  "asciiLower c = (case map_of (zip (take 26 upperChars) (take 26 lowerChars)) c of
                     Some d \<Rightarrow> d | None \<Rightarrow> c)"

fun startsWith :: "string \<Rightarrow> string \<Rightarrow> bool" where
  "startsWith [] s = True"
| "startsWith (p # ps) [] = False"
| "startsWith (p # ps) (c # cs) = (p = c \<and> startsWith ps cs)"

text \<open>
  \<open>String.prototype.substring(a, b)\<close>: both indices are clamped to \<open>[0, length]\<close>
  and swapped when \<open>a > b\<close>.
\<close>

definition clampIndex :: "string \<Rightarrow> int \<Rightarrow> nat" where
  "clampIndex s i = (if i < 0 then 0 else min (nat i) (length s))"

definition substring :: "string \<Rightarrow> int \<Rightarrow> int \<Rightarrow> string" where
  "substring s a b =
     (let x = clampIndex s a; y = clampIndex s b;
          lo = min x y; hi = max x y
      in take (hi - lo) (drop lo s))"

text \<open>
  \<open>String.prototype.substr(start, len)\<close>: a negative start counts from the end, the
  length is clamped to what is left.
\<close>

definition substr :: "string \<Rightarrow> int \<Rightarrow> int \<Rightarrow> string" where
  "substr s start len =
     (let n = int (length s);
          st = (if start < 0 then max (n + start) 0 else min start n);
          l = min (max len 0) (n - st)
      in take (nat l) (drop (nat st) s))"

section \<open>Global replacement\<close>

text \<open>
  \<open>str.replace(/re/g, r)\<close> scans the string from the left. At each position the
  expression is tried; a match is replaced and the scan goes on behind it, otherwise the
  code unit is copied and the scan moves one position on. A matcher gets whether the
  position is the start of the input (for \<open>^\<close>) and the rest of the input (for the match,
  \<open>$\<close> and look-ahead), and returns the replacement text and the number of code units the
  match consumed. After an empty match the scan copies one code unit, as the
  \<open>lastIndex\<close> rule of JavaScript has it.
\<close>

type_synonym matcher = "bool \<Rightarrow> string \<Rightarrow> (string \<times> nat) option"

function gsub :: "matcher \<Rightarrow> bool \<Rightarrow> string \<Rightarrow> string" where
  "gsub m b [] = (case m b [] of Some (rep, n) \<Rightarrow> rep | None \<Rightarrow> [])"
| "gsub m b (c # cs) =
     (case m b (c # cs) of
        None \<Rightarrow> c # gsub m False cs
      | Some (rep, n) \<Rightarrow>
          if n = 0 then rep @ c # gsub m False cs
          else rep @ gsub m False (drop n (c # cs)))"
  by pat_completeness auto
termination
  by (relation "measure (\<lambda>(m, b, s). length s)") auto

section \<open>The Wikitext Normalizer\<close>

text \<open>\<open>str.replace(/^\t/, ' ')\<close>: no \<open>m\<close> flag, so \<open>^\<close> is the start of the input.\<close>

definition leadingTab :: "string \<Rightarrow> string" where
  "leadingTab s = (case s of [] \<Rightarrow> [] | c # cs \<Rightarrow> if c = tab then sp # cs else s)"

text \<open>\<open>/\n\t/g\<close> to \<open>'\n '\<close>.\<close>

definition nlTabMatch :: matcher where
  "nlTabMatch b s = (if startsWith [nl, tab] s then Some ([nl, sp], 2) else None)"

text \<open>\<open>/ +/g\<close> to \<open>' '\<close>: a maximal run of spaces.\<close>

definition spacesMatch :: matcher where
  "spacesMatch b s =
     (if startsWith [sp] s then Some ([sp], length (takeWhile (\<lambda>x. x = sp) s)) else None)"

text \<open>
  \<open>/<(\/?)([^ >\/]+)((?:[^>\/]|\/(?!>))*)\/?>/g\<close>. The third group takes code units
  up to the first \<open>>\<close>, or the first \<open>/\<close> that a \<open>>\<close> follows; giving anything back
  cannot produce a match, since \<open>\/?>\<close> needs exactly one of these two.
\<close>

fun tagRemaining :: "string \<Rightarrow> string" where
  "tagRemaining [] = []"
| "tagRemaining (c # cs) =
     (if c = CHR ''>'' then []
      else if c = CHR ''/'' \<and> startsWith ''>'' cs then []
      else c # tagRemaining cs)"

text \<open>\<open>remaining.replace(/ $/, '')\<close>.\<close>

definition stripTrailingSpace :: "string \<Rightarrow> string" where
  "stripTrailingSpace s = (if s \<noteq> [] \<and> last s = sp then butlast s else s)"

definition tagMatch :: matcher where
  "tagMatch b s =
     (case s of
        [] \<Rightarrow> None
      | c # r \<Rightarrow>
          if c \<noteq> CHR ''<'' then None
          else
            let close = (if startsWith ''/'' r then ''/'' else []);
                r1 = drop (length close) r;
                name = takeWhile (\<lambda>x. x \<notin> set '' >/'') r1;
                r2 = drop (length name) r1;
                remaining = tagRemaining r2;
                r3 = drop (length remaining) r2;
                closing = (if startsWith ''/>'' r3 then Some 2
                           else if startsWith ''>'' r3 then Some (1::nat) else None)
            in if name = [] then None
               else (case closing of
                       None \<Rightarrow> None
                     | Some k \<Rightarrow>
                         Some (''<'' @ close @ toLowerCase name @
                                 stripTrailingSpace remaining @ ''>'',
                               1 + length close + length name + length remaining + k)))"

text \<open>
  \<open>/(^|\n|\|(?=\|)|!(?=!))(\{\||\|[\-+]*|!) *([^|\n]*?) *(?=[|\n]|$)/g\<close> to
  \<open>'$1$2$3'\<close>. Behind the second group everything up to the next \<open>|\<close>, newline or
  end of input is matched, and the lazy third group is that stretch without its leading
  and trailing spaces.
\<close>

definition tableGroup2 :: "string \<Rightarrow> (string \<times> string) option" where
  "tableGroup2 s =
     (if startsWith ''{|'' s then Some (''{|'', drop 2 s)
      else if startsWith ''|'' s then
        (let pm = takeWhile (\<lambda>x. x = CHR ''-'' \<or> x = CHR ''+'') (tl s)
         in Some (''|'' @ pm, drop (length pm) (tl s)))
      else if startsWith ''!'' s then Some (''!'', tl s)
      else None)"

definition trimSpaces :: "string \<Rightarrow> string" where
  "trimSpaces s = rev (dropWhile (\<lambda>x. x = sp) (rev (dropWhile (\<lambda>x. x = sp) s)))"

definition tableTail :: "string \<Rightarrow> string \<times> nat" where
  "tableTail s =
     (let run = takeWhile (\<lambda>x. x \<noteq> CHR ''|'' \<and> x \<noteq> nl) s in (trimSpaces run, length run))"

definition tableGroup1 :: "bool \<Rightarrow> string \<Rightarrow> (string \<times> string) option" where
  "tableGroup1 b s =
     (if b \<and> tableGroup2 s \<noteq> None then Some ([], s)
      else if startsWith [nl] s \<and> tableGroup2 (tl s) \<noteq> None then Some ([nl], tl s)
      else if startsWith ''||'' s then Some (''|'', tl s)
      else if startsWith ''!!'' s then Some (''!'', tl s)
      else None)"

definition tableMatch :: matcher where
  "tableMatch b s =
     (case tableGroup1 b s of
        None \<Rightarrow> None
      | Some (g1, r) \<Rightarrow>
          (case tableGroup2 r of
             None \<Rightarrow> None
           | Some (g2, r2) \<Rightarrow>
               (case tableTail r2 of
                  (g3, n) \<Rightarrow> Some (g1 @ g2 @ g3, length g1 + length g2 + n))))"

text \<open>
  \<open>/style\s*=\s*"[^"]+"/g\<close>, the match rewritten by
  \<open>match.replace(/\s|;(?=")/g, '')\<close>.
\<close>

fun styleClean :: "string \<Rightarrow> string" where
  "styleClean [] = []"
| "styleClean (c # cs) =
     (if isSpace c \<or> (c = CHR '';'' \<and> startsWith [dq] cs) then styleClean cs
      else c # styleClean cs)"

definition styleMatch :: matcher where
  "styleMatch b s =
     (if \<not> startsWith ''style'' s then None
      else
        let r1 = dropWhile isSpace (drop 5 s) in
        if \<not> startsWith ''='' r1 then None
        else
          let r2 = dropWhile isSpace (tl r1) in
          if \<not> startsWith [dq] r2 then None
          else
            let body = takeWhile (\<lambda>x. x \<noteq> dq) (tl r2);
                r3 = dropWhile (\<lambda>x. x \<noteq> dq) (tl r2)
            in if body = [] \<or> r3 = [] then None
               else
                 let n = length s - length r3 + 1
                 in Some (styleClean (take n s), n))"

text \<open>\<open>/"([^"]*?)"/g\<close> to \<open>'$1'\<close>.\<close>

definition quoteMatch :: matcher where
  "quoteMatch b s =
     (case s of
        [] \<Rightarrow> None
      | c # r \<Rightarrow>
          if c \<noteq> dq then None
          else
            let body = takeWhile (\<lambda>x. x \<noteq> dq) r;
                r1 = dropWhile (\<lambda>x. x \<noteq> dq) r
            in if r1 = [] then None else Some (body, length body + 2))"

text \<open>
  The closing tags \<open><\/(?:small|center)>\<close> and the look-ahead
  \<open>(?=\n[|!]|\n?$)\<close> of the last two rules.
\<close>

definition closeTagLen :: "bool \<Rightarrow> string \<Rightarrow> nat option" where
  "closeTagLen ci s =
     (let t = (if ci then map asciiLower s else s)
      in if startsWith ''</small>'' t then Some 8
         else if startsWith ''</center>'' t then Some 9
         else None)"

definition closeLookahead :: "string \<Rightarrow> bool" where
  "closeLookahead r =
     (startsWith [nl, CHR ''|''] r \<or> startsWith [nl, CHR ''!''] r \<or> r = [] \<or> r = [nl])"

definition closeAt :: "bool \<Rightarrow> string \<Rightarrow> nat option" where
  "closeAt ci s =
     (case closeTagLen ci s of
        None \<Rightarrow> None
      | Some k \<Rightarrow> if closeLookahead (drop k s) then Some k else None)"

text \<open>\<open>/(^|\n)<\/(?:small|center)>(?=\n[|!]|\n?$)/g\<close> to \<open>''\<close>.\<close>

definition implicitCloseLine :: matcher where
  "implicitCloseLine b s =
     (case (if b then closeAt False s else None) of
        Some k \<Rightarrow> Some ([], k)
      | None \<Rightarrow>
          if startsWith [nl] s then
            (case closeAt False (tl s) of None \<Rightarrow> None | Some k \<Rightarrow> Some ([], 1 + k))
          else None)"

text \<open>
  \<open>/([|!].*?)<\/(?:small|center)>(?=\n[|!]|\n?$)/gi\<close> to \<open>'$1'\<close>. The lazy
  \<open>.*?\<close> tries the closing tag at each position before it takes one more code unit
  that is no line terminator.
\<close>

fun lazyUntilClose :: "string \<Rightarrow> (string \<times> nat) option" where
  "lazyUntilClose [] = None"
| "lazyUntilClose (c # cs) =
     (case closeAt True (c # cs) of
        Some k \<Rightarrow> Some ([], k)
      | None \<Rightarrow>
          if isLineTerminator c then None
          else (case lazyUntilClose cs of
                  None \<Rightarrow> None
                | Some (p, k) \<Rightarrow> Some (c # p, k)))"

definition implicitCloseCell :: matcher where
  "implicitCloseCell b s =
     (case s of
        [] \<Rightarrow> None
      | c # r \<Rightarrow>
          if c \<noteq> CHR ''|'' \<and> c \<noteq> CHR ''!'' then None
          else (case lazyUntilClose r of
                  None \<Rightarrow> None
                | Some (p, k) \<Rightarrow> Some (c # p, 1 + length p + k)))"

definition normalizeWikitext :: "string \<Rightarrow> string" where
  "normalizeWikitext str =
     (let s1 = leadingTab str;
          s2 = gsub nlTabMatch True s1;
          s3 = gsub spacesMatch True s2;
          s4 = gsub tagMatch True s3;
          s5 = gsub tableMatch True s4;
          s6 = gsub styleMatch True s5;
          s7 = gsub quoteMatch True s6;
          s8 = gsub implicitCloseLine True s7
      in gsub implicitCloseCell True s8)"

section \<open>The annotated DOM\<close>

text \<open>
  A node of the parsed document is an element, a text node or a comment node. Nodes are
  JavaScript objects, compared by reference: every node carries an identifier. Of an
  element the matcher reads the \<open>dsr\<close> entry of its \<open>data-parsoid\<close> attribute, its
  \<open>typeof\<close> attribute (the empty string when absent) and its children. The attribute
  \<open>data-parsoid\<close> is absent or the JSON of an object, as \<open>DU.applyDataParsoid\<close> writes
  it; its \<open>dsr\<close> is absent (\<open>None\<close>) or an array whose entries are \<open>null\<close> or integers.
  An attribute that is not JSON is taken up in the section on malformed metadata.
\<close>

type_synonym dsr = "int option list"

datatype node =
    Elt nat "dsr option" string "node list"
  | TextNode nat string
  | CommentNode nat string

fun isElt :: "node \<Rightarrow> bool" where
  "isElt (Elt i dp ty kids) = True"
| "isElt n = False"

fun typeOf :: "node \<Rightarrow> string" where
  "typeOf (Elt i dp ty kids) = ty"
| "typeOf n = []"

fun childNodes :: "node \<Rightarrow> node list" where
  "childNodes (Elt i dp ty kids) = kids"
| "childNodes n = []"

text \<open>\<open>targetRange\<close>, and each half of an offset pair: \<open>{start, end}\<close>.\<close>

record range =
  rangeStart :: int
  rangeEnd :: int

record MatchResult =
  done' :: bool
  nodes :: "node list"

text \<open>
  The variables of \<open>findMatchingNodes\<close> that every call of \<open>walkDOM\<close> shares. The last
  field is not in the program: it records the identifiers of the nodes \<open>walkDOM\<close> was
  called on, in order.
\<close>

record MatchState =
  currentOffset :: "int option"
  wasWaiting :: bool
  waitingForEndMatch :: bool
  visited :: "nat list"

text \<open>
  The functions of the modules \<open>DOMUtils\<close> and \<open>Diff\<close> that the program calls are
  parameters. \<open>skipOverEncapsulatedContent\<close> returns a later sibling or \<open>null\<close>: it is
  given the node and the siblings behind it, and tells how many of them it passes over.
  \<open>normalizeOutBody\<close> is \<open>DU.normalizeOut(body, true)\<close>, \<open>normalizeOut\<close> is
  \<open>DU.normalizeOut(html)\<close>, \<open>outerHTML\<close> is the property of that name.
\<close>

record collaborators =
  decodedCommentLength :: "node \<Rightarrow> nat"
  skipOverEncapsulatedContent :: "node \<Rightarrow> node list \<Rightarrow> nat"
  serializeNode :: "node \<Rightarrow> string"
  normalizeOut :: "string \<Rightarrow> string"
  normalizeOutBody :: "node \<Rightarrow> string"
  formatHTML :: "string \<Rightarrow> string"
  outerHTML :: "node \<Rightarrow> string"
  htmlDiff :: "string \<Rightarrow> string \<Rightarrow> string"

text \<open>\<open>a || b\<close> on a number that may be \<open>null\<close> or \<open>undefined\<close>: 0 is falsy too.\<close>

definition orElse :: "int option \<Rightarrow> int \<Rightarrow> int" where
  "orElse v d = (case v of None \<Rightarrow> d | Some x \<Rightarrow> if x = 0 then d else x)"

definition truthy :: "int option \<Rightarrow> bool" where
  "truthy v = (case v of None \<Rightarrow> False | Some x \<Rightarrow> x \<noteq> 0)"

text \<open>\<open>dsr[i]\<close>: \<open>None\<close> stands for \<open>null\<close>, and for \<open>undefined\<close> behind the array's end.\<close>

definition dsrAt :: "dsr \<Rightarrow> nat \<Rightarrow> int option" where
  "dsrAt d i = (if i < length d then d ! i else None)"

definition isWordChar :: "char \<Rightarrow> bool" where
  "isWordChar c =
     (c \<in> set ''abcdefghijklmnopqrstuvwxyzABCDEFGHIJKLMNOPQRSTUVWXYZ0123456789_'')"

text \<open>\<open>\b\<close> behind a word character: the input ends, or a non-word character follows.\<close>

definition wordEnd :: "string \<Rightarrow> bool" where
  "wordEnd r = (case r of [] \<Rightarrow> True | c # cs \<Rightarrow> \<not> isWordChar c)"

text \<open>
  \<open>/\bmw:(?:Transclusion\b|Param\b|Extension\/[^\s]+)/.test(typeOf)\<close>: the scan
  remembers whether the code unit before the position is a word character.
\<close>

definition encapsulationHere :: "string \<Rightarrow> bool" where
  "encapsulationHere s =
     (startsWith ''mw:'' s \<and>
      (let r = drop 3 s
       in (startsWith ''Transclusion'' r \<and> wordEnd (drop 12 r)) \<or>
          (startsWith ''Param'' r \<and> wordEnd (drop 5 r)) \<or>
          (startsWith ''Extension/'' r \<and>
             (case drop 10 r of [] \<Rightarrow> False | c # cs \<Rightarrow> \<not> isSpace c))))"

fun encapsulationScan :: "bool \<Rightarrow> string \<Rightarrow> bool" where
  "encapsulationScan w [] = False"
| "encapsulationScan w (c # cs) =
     ((\<not> w \<and> encapsulationHere (c # cs)) \<or> encapsulationScan (isWordChar c) cs)"

definition isEncapsulated :: "node \<Rightarrow> bool" where
  "isEncapsulated c = (isElt c \<and> encapsulationScan False (typeOf c))"

section \<open>The Node Matcher\<close>

text \<open>
  \<open>DU.isComment(n) ? DU.decodedCommentLength(n) : n.nodeValue.length\<close>. Only text and
  comment nodes are ever measured.
\<close>

fun nodeLen :: "collaborators \<Rightarrow> node \<Rightarrow> int" where
  "nodeLen du (CommentNode i v) = int (decodedCommentLength du (CommentNode i v))"
| "nodeLen du (TextNode i v) = int (length v)"
| "nodeLen du (Elt i dp ty kids) = 0"

datatype 'a flow = Return 'a | Proceed

definition visit :: "nat \<Rightarrow> MatchState \<Rightarrow> MatchState" where
  "visit i st = st\<lparr>visited := visited st @ [i]\<rparr>"

text \<open>
  The head of \<open>walkDOM\<close>, lines 168 to 196: what is decided from the node's own \<open>dsr\<close>.
  \<open>Return\<close> is a \<open>return\<close> of the program, \<open>Proceed\<close> goes on to the children.
\<close>

definition checkSpan ::
  "range \<Rightarrow> int \<Rightarrow> node \<Rightarrow> dsr option \<Rightarrow> MatchState \<Rightarrow> MatchResult option flow \<times> MatchState"
where
  "checkSpan targetRange sourceLen element dp st =
     (case dp of
        None \<Rightarrow> (Proceed, st)
      | Some d \<Rightarrow>
          if length d = 0 then (Proceed, st)
          else
            let start = orElse (dsrAt d 0) 0;
                end' = orElse (dsrAt d 1) (sourceLen - 1)
            in if rangeEnd targetRange - 1 < start \<or> rangeStart targetRange > end' - 1
               then (Return None, st)
               else if waitingForEndMatch st then
                 (Return (Some \<lparr>done' = True, nodes = [element]\<rparr>),
                  if end' \<ge> rangeEnd targetRange then st\<lparr>waitingForEndMatch := False\<rparr> else st)
               else if dsrAt d 0 \<noteq> None \<and> rangeStart targetRange = start \<and>
                       end' = rangeEnd targetRange
               then (Return (Some \<lparr>done' = True, nodes = [element]\<rparr>), st)
               else if rangeStart targetRange = start then
                 (if end' < rangeEnd targetRange
                  then (Return (Some \<lparr>done' = False, nodes = [element]\<rparr>),
                        st\<lparr>waitingForEndMatch := True\<rparr>)
                  else (Proceed, st\<lparr>waitingForEndMatch := True\<rparr>))
               else if start > rangeStart targetRange \<and> end' < rangeEnd targetRange
               then (Return (Some \<lparr>done' = False, nodes = [element]\<rparr>), st)
               else (Proceed, st))"

text \<open>
  Lines 213 to 224: the nodes popped off \<open>precedingNodes\<close> (given here last node
  first) while \<open>diff > 0\<close> and the node's length fits.
\<close>

fun popPreceding :: "collaborators \<Rightarrow> int \<Rightarrow> node list \<Rightarrow> node list" where
  "popPreceding du diff [] = []"
| "popPreceding du diff (n # ns) =
     (if diff > 0 then
        (let len = nodeLen du n
         in if len > diff then [] else n # popPreceding du (diff - len) ns)
      else [])"

text \<open>
  \<open>elesOnOffset\<close> behind its \<open>reverse()\<close>. With \<open>dsr = []\<close> the offset is
  \<open>undefined\<close>, \<open>diff\<close> is \<open>NaN\<close> and nothing is popped.
\<close>

definition elesOnOffset :: "collaborators \<Rightarrow> int option \<Rightarrow> range \<Rightarrow> node list \<Rightarrow> node list" where
  "elesOnOffset du co targetRange precedingNodes =
     (case co of
        None \<Rightarrow> []
      | Some v \<Rightarrow> rev (popPreceding du (v - rangeStart targetRange) (rev precedingNodes)))"

text \<open>\<open>attribs.dsr && (attribs.dsr[0] !== null)\<close>: \<open>undefined !== null\<close> holds.\<close>

definition dsrStartNotNull :: "dsr option \<Rightarrow> bool" where
  "dsrStartNotNull dp = (case dp of None \<Rightarrow> False | Some d \<Rightarrow> d = [] \<or> dsrAt d 0 \<noteq> None)"

text \<open>Lines 228 to 242: a single matched element whose own end is known.\<close>

definition singleChild :: "range \<Rightarrow> node list \<Rightarrow> bool \<Rightarrow> MatchState \<Rightarrow> bool \<times> MatchState" where
  "singleChild targetRange matchedChildren dn st =
     (case matchedChildren of
        [Elt j (Some d) cty ckids] \<Rightarrow>
          (case dsrAt d 1 of
             None \<Rightarrow> (dn, st)
           | Some v \<Rightarrow>
               if v = 0 then (dn, st)
               else if v \<ge> rangeEnd targetRange then (True, st)
               else (dn, st\<lparr>currentOffset := Some v\<rparr>))
      | _ \<Rightarrow> (dn, st))"

text \<open>
  Lines 204 to 255: an element child \<open>c\<close>, once \<open>walkDOM(c)\<close> has returned \<open>res\<close>.
  \<open>Inl\<close> is the \<open>return res\<close> of line 246; \<open>Inr\<close> carries \<open>elements\<close> and the emptied
  \<open>precedingNodes\<close> on.
\<close>

definition elementStep ::
  "collaborators \<Rightarrow> range \<Rightarrow> dsr option \<Rightarrow> node \<Rightarrow> MatchResult option \<Rightarrow> node list \<Rightarrow>
   node list \<Rightarrow> MatchState \<Rightarrow> (MatchResult + node list \<times> node list) \<times> MatchState"
where
  "elementStep du targetRange dp c res elements precedingNodes st =
     (case res of
        None \<Rightarrow>
          (Inr (if wasWaiting st \<or> waitingForEndMatch st then elements @ [c] else elements, []),
           st)
      | Some r \<Rightarrow>
          (case (if \<not> truthy (currentOffset st) \<and> dsrStartNotNull dp then
                   (elesOnOffset du (dsrAt (the dp) 0) targetRange precedingNodes @ nodes r,
                    st\<lparr>currentOffset := dsrAt (the dp) 0\<rparr>)
                 else (nodes r, st)) of
             (matchedChildren, st1) \<Rightarrow>
               (case singleChild targetRange matchedChildren (done' r) st1 of
                  (dn, st2) \<Rightarrow>
                    if dn then (Inl \<lparr>done' = True, nodes = matchedChildren\<rparr>, st2)
                    else (Inr (matchedChildren, []), st2))))"

text \<open>Lines 256 to 275: a text or comment child.\<close>

definition textStep ::
  "collaborators \<Rightarrow> range \<Rightarrow> node \<Rightarrow> node list \<Rightarrow> node list \<Rightarrow> MatchState \<Rightarrow>
   (MatchResult + node list \<times> node list) \<times> MatchState"
where
  "textStep du targetRange c elements precedingNodes st =
     (let st1 =
            (case currentOffset st of
               None \<Rightarrow> st
             | Some co \<Rightarrow>
                 if co \<noteq> 0 \<and> co < rangeEnd targetRange then
                   (let co' = co + nodeLen du c
                    in st\<lparr>currentOffset := Some co',
                          waitingForEndMatch :=
                            (if co' \<ge> rangeEnd targetRange then False
                             else waitingForEndMatch st)\<rparr>)
                 else st)
      in if wasWaiting st1 \<or> waitingForEndMatch st1 then
           (Inr (elements @ [c], precedingNodes), st1)
         else if \<not> truthy (currentOffset st1) then
           (Inr (elements, precedingNodes @ [c]), st1)
         else (Inr (elements, precedingNodes), st1))"

text \<open>Lines 281 to 287: the sibling the loop goes on with.\<close>

definition nextSiblings :: "collaborators \<Rightarrow> node \<Rightarrow> node list \<Rightarrow> node list" where
  "nextSiblings du c cs =
     (if isEncapsulated c then drop (skipOverEncapsulatedContent du c cs) cs else cs)"

text \<open>Lines 290 to 298.\<close>

definition finish :: "node \<Rightarrow> node list \<Rightarrow> MatchState \<Rightarrow> MatchResult option" where
  "finish element elements st =
     (let numElements = length elements;
          numChildren = length (childNodes element)
      in if numElements = 0 then None
         else if numElements < numChildren then
           Some \<lparr>done' = \<not> waitingForEndMatch st, nodes = elements\<rparr>
         else Some \<lparr>done' = \<not> waitingForEndMatch st, nodes = [element]\<rparr>)"

text \<open>
  \<open>walkDOM\<close>, and its \<open>while (c)\<close> loop over the children: \<open>walkChildren\<close> gets the
  parent's \<open>dsr\<close>, the children from \<open>c\<close> on, \<open>elements\<close> and \<open>precedingNodes\<close>. Its
  result is \<open>Inl\<close> for the \<open>return\<close> inside the loop and \<open>Inr elements\<close> when the loop
  ends or breaks.
\<close>

function
  walkDOM :: "collaborators \<Rightarrow> range \<Rightarrow> int \<Rightarrow> node \<Rightarrow> MatchState \<Rightarrow>
              MatchResult option \<times> MatchState"
and
  walkChildren :: "collaborators \<Rightarrow> range \<Rightarrow> int \<Rightarrow> dsr option \<Rightarrow> node list \<Rightarrow> node list \<Rightarrow>
                   node list \<Rightarrow> MatchState \<Rightarrow> (MatchResult + node list) \<times> MatchState"
where
  "walkDOM du targetRange sourceLen (TextNode i v) st = (None, visit i st)"
| "walkDOM du targetRange sourceLen (CommentNode i v) st = (None, visit i st)"
| "walkDOM du targetRange sourceLen (Elt i dp ty kids) st =
     (case checkSpan targetRange sourceLen (Elt i dp ty kids) dp (visit i st) of
        (Return r, st1) \<Rightarrow> (r, st1)
      | (Proceed, st1) \<Rightarrow>
          (case walkChildren du targetRange sourceLen dp kids [] [] st1 of
             (Inl r, st2) \<Rightarrow> (Some r, st2)
           | (Inr elements, st2) \<Rightarrow> (finish (Elt i dp ty kids) elements st2, st2)))"
| "walkChildren du targetRange sourceLen dp [] elements precedingNodes st = (Inr elements, st)"
| "walkChildren du targetRange sourceLen dp (c # cs) elements precedingNodes st =
     (case (if isElt c then
              (case walkDOM du targetRange sourceLen c
                      (st\<lparr>wasWaiting := waitingForEndMatch st\<rparr>) of
                 (res, st1) \<Rightarrow> elementStep du targetRange dp c res elements precedingNodes st1)
            else textStep du targetRange c elements precedingNodes
                   (st\<lparr>wasWaiting := waitingForEndMatch st\<rparr>)) of
        (Inl r, st2) \<Rightarrow> (Inl r, st2)
      | (Inr (elements', precedingNodes'), st2) \<Rightarrow>
          if wasWaiting st2 \<and> \<not> waitingForEndMatch st2 then (Inr elements', st2)
          else walkChildren du targetRange sourceLen dp (nextSiblings du c cs)
                 elements' precedingNodes' st2)"
  by pat_completeness auto

lemma size_list_drop_le: "size_list f (drop n xs) \<le> size_list f xs"
proof (induction xs arbitrary: n)
  case Nil
  show ?case by simp
next
  case (Cons x xs)
  show ?case
  proof (cases n)
    case 0
    then show ?thesis by simp
  next
    case (Suc k)
    have "size_list f (drop k xs) \<le> size_list f xs" by (rule Cons.IH)
    then show ?thesis using Suc by simp
  qed
qed

lemma size_nextSiblings: "size_list size (nextSiblings du c cs) \<le> size_list size cs"
  by (simp add: nextSiblings_def size_list_drop_le)

termination walkDOM
proof (relation "measure (\<lambda>x. case x of
                            Inl (du, tr, sl, n, st) \<Rightarrow> size n
                          | Inr (du, tr, sl, dp, cs, es, ps, st) \<Rightarrow> size_list size cs)")
  show "wf (measure (\<lambda>x. case x of
                            Inl (du, tr, sl, n, st) \<Rightarrow> size n
                          | Inr (du, tr, sl, dp, cs, es, ps, st) \<Rightarrow> size_list size cs))"
    by simp
next
  fix du :: collaborators and targetRange :: range and sourceLen :: int and i dp ty kids
    and st :: MatchState and x :: "MatchResult option flow" and y :: MatchState
  show "(Inr (du, targetRange, sourceLen, dp, kids, [], [], y),
         Inl (du, targetRange, sourceLen, Elt i dp ty kids, st))
        \<in> measure (\<lambda>x. case x of
                            Inl (du, tr, sl, n, st) \<Rightarrow> size n
                          | Inr (du, tr, sl, dp, cs, es, ps, st) \<Rightarrow> size_list size cs)"
    by simp
next
  fix du :: collaborators and targetRange :: range and sourceLen :: int and dp :: "dsr option"
    and c cs and elements precedingNodes :: "node list" and st :: MatchState
  show "(Inl (du, targetRange, sourceLen, c, st\<lparr>wasWaiting := waitingForEndMatch st\<rparr>),
         Inr (du, targetRange, sourceLen, dp, c # cs, elements, precedingNodes, st))
        \<in> measure (\<lambda>x. case x of
                            Inl (du, tr, sl, n, st) \<Rightarrow> size n
                          | Inr (du, tr, sl, dp, cs, es, ps, st) \<Rightarrow> size_list size cs)"
    by simp
next
  fix du :: collaborators and targetRange :: range and sourceLen :: int and dp :: "dsr option"
    and c cs and elements precedingNodes xa ya :: "node list" and st y :: MatchState
  have "size_list size (nextSiblings du c cs) \<le> size_list size cs"
    by (rule size_nextSiblings)
  then show "(Inr (du, targetRange, sourceLen, dp, nextSiblings du c cs, xa, ya, y),
         Inr (du, targetRange, sourceLen, dp, c # cs, elements, precedingNodes, st))
        \<in> measure (\<lambda>x. case x of
                            Inl (du, tr, sl, n, st) \<Rightarrow> size n
                          | Inr (du, tr, sl, dp, cs, es, ps, st) \<Rightarrow> size_list size cs)"
    by simp
qed

definition initialState :: MatchState where
  "initialState =
     \<lparr>currentOffset = None, wasWaiting = False, waitingForEndMatch = False, visited = []\<rparr>"

definition findMatchingNodes ::
  "collaborators \<Rightarrow> node \<Rightarrow> range \<Rightarrow> int \<Rightarrow> MatchResult option"
where
  "findMatchingNodes du root targetRange sourceLen =
     fst (walkDOM du targetRange sourceLen root initialState)"

section \<open>The Significance Classifier\<close>

text \<open>
  An offset pair is the array \<open>[old, new]\<close> of two ranges. The classifier changes the
  caller's pairs in place and puts the same objects into its results, so pairs live in a
  store and are passed by reference.
\<close>

record OffsetPair =
  oldRange :: range
  newRange :: range

type_synonym ref = nat
type_synonym store = "ref \<Rightarrow> OffsetPair"

datatype kind = Skip | Fail

record DiffResult =
  kind :: kind
  offset :: ref
  wtDiff :: string
  htmlDiffOf :: "string option"

text \<open>
  What the classifier reads of \<open>data\<close>: the two wikitexts, and the two bodies as they
  stand behind lines 348 to 353 (the documents parsed, \<open>data-parsoid\<close> applied).
\<close>

record data =
  oldWt :: string
  newWt :: string
  oldBody :: node
  newBody :: node

text \<open>
  Not in the program: the calls of the Node Matcher and of \<open>Diff.htmlDiff\<close> the
  classifier makes, in order, with their arguments.
\<close>

datatype event =
    FindMatchingNodes node range int
  | HtmlDiff string string

definition formatDiff :: "string \<Rightarrow> string \<Rightarrow> OffsetPair \<Rightarrow> int \<Rightarrow> string" where
  "formatDiff oldW newW offs context =
     ''----'' @ [nl] @
     substring oldW (rangeStart (oldRange offs) - context) (rangeEnd (oldRange offs) + context) @
     [nl] @ ''++++'' @ [nl] @
     substring newW (rangeStart (newRange offs) - context) (rangeEnd (newRange offs) + context)"

text \<open>\<open>/("|&quot;)fostered("|&quot;)\s*:\s*true\b/.test(html)\<close>.\<close>

definition quoteToken :: "string \<Rightarrow> nat option" where
  "quoteToken s =
     (if startsWith [dq] s then Some 1
      else if startsWith ''&quot;'' s then Some 6
      else None)"

definition fosteredHere :: "string \<Rightarrow> bool" where
  "fosteredHere s =
     (case quoteToken s of
        None \<Rightarrow> False
      | Some k \<Rightarrow>
          startsWith ''fostered'' (drop k s) \<and>
          (case quoteToken (drop (k + 8) s) of
             None \<Rightarrow> False
           | Some k2 \<Rightarrow>
               (let r = dropWhile isSpace (drop (k + 8 + k2) s)
                in startsWith '':'' r \<and>
                   (let r2 = dropWhile isSpace (tl r)
                    in startsWith ''true'' r2 \<and> wordEnd (drop 4 r2)))))"

fun fosteredTest :: "string \<Rightarrow> bool" where
  "fosteredTest [] = False"
| "fosteredTest (c # cs) = (fosteredHere (c # cs) \<or> fosteredTest cs)"

text \<open>\<open>/^\n?<\/[^>]+>\n?$/\<close>: an optional newline, one closing tag, an optional newline.\<close>

definition closingTagOnly :: "string \<Rightarrow> bool" where
  "closingTagOnly s =
     (let r = (if startsWith [nl] s then tl s else s)
      in startsWith ''</'' r \<and>
         (let body = takeWhile (\<lambda>x. x \<noteq> CHR ''>'') (drop 2 r);
              r1 = drop (length body) (drop 2 r)
          in body \<noteq> [] \<and> startsWith ''>'' r1 \<and> (tl r1 = [] \<or> tl r1 = [nl])))"

text \<open>Lines 387 to 389.\<close>

definition implicitlyClosed :: "data \<Rightarrow> OffsetPair \<Rightarrow> bool" where
  "implicitlyClosed d offs =
     (rangeStart (oldRange offs) = rangeEnd (oldRange offs) \<and>
      closingTagOnly
        (substr (newWt d) (rangeStart (newRange offs))
           (rangeEnd (newRange offs) - rangeStart (newRange offs))))"

text \<open>\<open>offset[0].start--\<close>.\<close>

definition decrementOldStart :: "OffsetPair \<Rightarrow> OffsetPair" where
  "decrementOldStart offs =
     offs\<lparr>oldRange := (oldRange offs)\<lparr>rangeStart := rangeStart (oldRange offs) - 1\<rparr>\<rparr>"

text \<open>
  Lines 397 to 403, and 405 to 411: the matched nodes, an empty list when the matcher
  returns \<open>null\<close>, serialized one by one, normalized and formatted.
\<close>

definition matchedNodes :: "MatchResult option \<Rightarrow> node list" where
  "matchedNodes res = (case res of None \<Rightarrow> [] | Some r \<Rightarrow> nodes r)"

definition fragmentHTML :: "collaborators \<Rightarrow> node list \<Rightarrow> string" where
  "fragmentHTML du out = formatHTML du (normalizeOut du (concat (map (serializeNode du) out)))"

text \<open>
  The body of the loop of lines 381 to 436, for the pair behind reference \<open>r\<close>: the
  result, the store behind it and the calls made.
\<close>

definition diffRegion ::
  "collaborators \<Rightarrow> data \<Rightarrow> ref \<Rightarrow> store \<Rightarrow> DiffResult \<times> store \<times> event list"
where
  "diffRegion du d r h =
     (let h1 = (if implicitlyClosed d (h r) then h(r := decrementOldStart (h r)) else h);
          offs = h1 r;
          origHTML = fragmentHTML du (matchedNodes
                       (findMatchingNodes du (oldBody d) (oldRange offs) (int (length (oldWt d)))));
          newHTML = fragmentHTML du (matchedNodes
                       (findMatchingNodes du (newBody d) (newRange offs) (int (length (newWt d)))));
          wt1 = substring (oldWt d) (rangeStart (oldRange offs)) (rangeEnd (oldRange offs));
          wt2 = substring (newWt d) (rangeStart (newRange offs)) (rangeEnd (newRange offs));
          diff = htmlDiff du origHTML newHTML;
          thisResult = \<lparr>kind = Skip, offset = r,
                          wtDiff = formatDiff (oldWt d) (newWt d) offs 0, htmlDiffOf = None\<rparr>;
          calls = [FindMatchingNodes (oldBody d) (oldRange offs) (int (length (oldWt d))),
                   FindMatchingNodes (newBody d) (newRange offs) (int (length (newWt d))),
                   HtmlDiff origHTML newHTML]
      in if length diff > 0 \<and> normalizeWikitext wt1 \<noteq> normalizeWikitext wt2
         then (thisResult\<lparr>htmlDiffOf := Some diff, kind := Fail,
                           wtDiff := formatDiff (oldWt d) (newWt d) offs 25\<rparr>, h1, calls)
         else (thisResult, h1, calls))"

fun fullDiffs ::
  "collaborators \<Rightarrow> data \<Rightarrow> ref list \<Rightarrow> store \<Rightarrow> DiffResult list \<times> store \<times> event list"
where
  "fullDiffs du d [] h = ([], h, [])"
| "fullDiffs du d (r # rs) h =
     (case diffRegion du d r h of
        (res, h1, calls1) \<Rightarrow>
          (case fullDiffs du d rs h1 of
             (results, h2, calls2) \<Rightarrow> (res # results, h2, calls1 @ calls2)))"

text \<open>Lines 360 to 377: the quick test; the fostered flag is looked for in the old body.\<close>

definition quickTest :: "collaborators \<Rightarrow> data \<Rightarrow> bool" where
  "quickTest du d =
     (\<not> fosteredTest (outerHTML du (oldBody d)) \<and>
      normalizeOutBody du (oldBody d) = normalizeOutBody du (newBody d))"

definition checkIfSignificant ::
  "collaborators \<Rightarrow> ref list \<Rightarrow> data \<Rightarrow> store \<Rightarrow> DiffResult list \<times> store \<times> event list"
where
  "checkIfSignificant du offsets d h =
     (if quickTest du d then
        (map (\<lambda>r. \<lparr>kind = Skip, offset = r,
                    wtDiff = formatDiff (oldWt d) (newWt d) (h r) 0, htmlDiffOf = None\<rparr>)
           offsets,
         h, [])
      else fullDiffs du d offsets h)"

text \<open>
  Line 110 of \<open>xmlFormat\<close>: the number a report prints for a result,
  \<open>result.offset[0].start\<close>, read when the report is made.
\<close>

definition reportedCharacter :: "store \<Rightarrow> DiffResult \<Rightarrow> int" where
  "reportedCharacter h res = rangeStart (oldRange (h (offset res)))"

section \<open>Malformed metadata\<close>

text \<open>
  Modelled from the spec: \<open>DU.getJSONAttribute\<close>, through which line 166 reads
  \<open>data-parsoid\<close>, is defined in another module. By the spec's error taxonomy malformed
  metadata "degrades gracefully (treated as absent span)": for an attribute that is not
  JSON it yields an empty object. An element with such an attribute therefore stands in
  the tree with no \<open>dsr\<close>, and the set \<open>malformed\<close> holds the identifiers of these
  elements.

  Lines 231 to 233 read the same attribute of a single matched element again, with
  \<open>getAttribute\<close> and a bare \<open>JSON.parse\<close>, which throws a \<open>SyntaxError\<close> on such an
  attribute. The functions below are the matcher and the classifier with this \<open>throw\<close>
  as a result: \<open>Inl\<close> is the error, which ends the call, \<open>Inr\<close> is what is returned.
\<close>

datatype error = SyntaxError

text \<open>Lines 228 to 242, with the \<open>JSON.parse\<close> of line 233.\<close>

definition singleChildR ::
  "nat set \<Rightarrow> range \<Rightarrow> node list \<Rightarrow> bool \<Rightarrow> MatchState \<Rightarrow> error + bool \<times> MatchState"
where
  "singleChildR malformed targetRange matchedChildren dn st =
     (case matchedChildren of
        [Elt j dp cty ckids] \<Rightarrow>
          if j \<in> malformed then Inl SyntaxError
          else Inr (singleChild targetRange matchedChildren dn st)
      | _ \<Rightarrow> Inr (singleChild targetRange matchedChildren dn st))"

text \<open>Lines 204 to 255.\<close>

definition elementStepR ::
  "nat set \<Rightarrow> collaborators \<Rightarrow> range \<Rightarrow> dsr option \<Rightarrow> node \<Rightarrow> MatchResult option \<Rightarrow>
   node list \<Rightarrow> node list \<Rightarrow> MatchState \<Rightarrow>
   error + (MatchResult + node list \<times> node list) \<times> MatchState"
where
  "elementStepR malformed du targetRange dp c res elements precedingNodes st =
     (case res of
        None \<Rightarrow>
          Inr (Inr (if wasWaiting st \<or> waitingForEndMatch st then elements @ [c] else elements,
                    []),
               st)
      | Some r \<Rightarrow>
          (case (if \<not> truthy (currentOffset st) \<and> dsrStartNotNull dp then
                   (elesOnOffset du (dsrAt (the dp) 0) targetRange precedingNodes @ nodes r,
                    st\<lparr>currentOffset := dsrAt (the dp) 0\<rparr>)
                 else (nodes r, st)) of
             (matchedChildren, st1) \<Rightarrow>
               (case singleChildR malformed targetRange matchedChildren (done' r) st1 of
                  Inl e \<Rightarrow> Inl e
                | Inr (dn, st2) \<Rightarrow>
                    if dn then Inr (Inl \<lparr>done' = True, nodes = matchedChildren\<rparr>, st2)
                    else Inr (Inr (matchedChildren, []), st2))))"

text \<open>\<open>walkDOM\<close> and its loop; an error of a call inside ends the calls around it.\<close>

function
  walkDOMR :: "nat set \<Rightarrow> collaborators \<Rightarrow> range \<Rightarrow> int \<Rightarrow> node \<Rightarrow> MatchState \<Rightarrow>
               error + MatchResult option \<times> MatchState"
and
  walkChildrenR :: "nat set \<Rightarrow> collaborators \<Rightarrow> range \<Rightarrow> int \<Rightarrow> dsr option \<Rightarrow> node list \<Rightarrow>
                    node list \<Rightarrow> node list \<Rightarrow> MatchState \<Rightarrow>
                    error + (MatchResult + node list) \<times> MatchState"
where
  "walkDOMR malformed du targetRange sourceLen (TextNode i v) st = Inr (None, visit i st)"
| "walkDOMR malformed du targetRange sourceLen (CommentNode i v) st = Inr (None, visit i st)"
| "walkDOMR malformed du targetRange sourceLen (Elt i dp ty kids) st =
     (case checkSpan targetRange sourceLen (Elt i dp ty kids) dp (visit i st) of
        (Return r, st1) \<Rightarrow> Inr (r, st1)
      | (Proceed, st1) \<Rightarrow>
          (case walkChildrenR malformed du targetRange sourceLen dp kids [] [] st1 of
             Inl e \<Rightarrow> Inl e
           | Inr (Inl r, st2) \<Rightarrow> Inr (Some r, st2)
           | Inr (Inr elements, st2) \<Rightarrow> Inr (finish (Elt i dp ty kids) elements st2, st2)))"
| "walkChildrenR malformed du targetRange sourceLen dp [] elements precedingNodes st =
     Inr (Inr elements, st)"
| "walkChildrenR malformed du targetRange sourceLen dp (c # cs) elements precedingNodes st =
     (case (if isElt c then
              (case walkDOMR malformed du targetRange sourceLen c
                      (st\<lparr>wasWaiting := waitingForEndMatch st\<rparr>) of
                 Inl e \<Rightarrow> Inl e
               | Inr (res, st1) \<Rightarrow>
                   elementStepR malformed du targetRange dp c res elements precedingNodes st1)
            else Inr (textStep du targetRange c elements precedingNodes
                        (st\<lparr>wasWaiting := waitingForEndMatch st\<rparr>))) of
        Inl e \<Rightarrow> Inl e
      | Inr (Inl r, st2) \<Rightarrow> Inr (Inl r, st2)
      | Inr (Inr (elements', precedingNodes'), st2) \<Rightarrow>
          if wasWaiting st2 \<and> \<not> waitingForEndMatch st2 then Inr (Inr elements', st2)
          else walkChildrenR malformed du targetRange sourceLen dp (nextSiblings du c cs)
                 elements' precedingNodes' st2)"
  by pat_completeness auto

termination walkDOMR
proof (relation "measure (\<lambda>x. case x of
                            Inl (m, du, tr, sl, n, st) \<Rightarrow> size n
                          | Inr (m, du, tr, sl, dp, cs, es, ps, st) \<Rightarrow> size_list size cs)",
       goal_cases)
  case 1
  show ?case by simp
next
  case 2
  show ?case by simp
next
  case 3
  show ?case by simp
next
  case (4 malformed du targetRange sourceLen dp c cs)
  have "size_list size (nextSiblings du c cs) \<le> size_list size cs"
    by (rule size_nextSiblings)
  then show ?case by simp
qed

definition findMatchingNodesR ::
  "nat set \<Rightarrow> collaborators \<Rightarrow> node \<Rightarrow> range \<Rightarrow> int \<Rightarrow> error + MatchResult option"
where
  "findMatchingNodesR malformed du root targetRange sourceLen =
     (case walkDOMR malformed du targetRange sourceLen root initialState of
        Inl e \<Rightarrow> Inl e
      | Inr (res, st) \<Rightarrow> Inr res)"

text \<open>
  The body of the classifier's loop, the loop and \<open>checkIfSignificant\<close>: the two calls
  of the matcher, lines 397 and 405 in this order, may throw. An offset pair holds both
  of its ranges here, as everywhere in this theory: the guards \<open>offset[0] || {}\<close> and
  \<open>offset[1] || {}\<close> of these two lines stand behind line 387, which has read
  \<open>offset[0].start\<close> by then.
\<close>

definition diffRegionR ::
  "nat set \<Rightarrow> collaborators \<Rightarrow> data \<Rightarrow> ref \<Rightarrow> store \<Rightarrow> error + DiffResult \<times> store \<times> event list"
where
  "diffRegionR malformed du d r h =
     (let h1 = (if implicitlyClosed d (h r) then h(r := decrementOldStart (h r)) else h);
          offs = h1 r
      in case findMatchingNodesR malformed du (oldBody d) (oldRange offs)
                (int (length (oldWt d))) of
           Inl e \<Rightarrow> Inl e
         | Inr res \<Rightarrow>
             (case findMatchingNodesR malformed du (newBody d) (newRange offs)
                     (int (length (newWt d))) of
                Inl e \<Rightarrow> Inl e
              | Inr res' \<Rightarrow>
                  (let origHTML = fragmentHTML du (matchedNodes res);
                       newHTML = fragmentHTML du (matchedNodes res');
                       wt1 = substring (oldWt d) (rangeStart (oldRange offs))
                               (rangeEnd (oldRange offs));
                       wt2 = substring (newWt d) (rangeStart (newRange offs))
                               (rangeEnd (newRange offs));
                       diff = htmlDiff du origHTML newHTML;
                       thisResult = \<lparr>kind = Skip, offset = r,
                                       wtDiff = formatDiff (oldWt d) (newWt d) offs 0,
                                       htmlDiffOf = None\<rparr>;
                       calls = [FindMatchingNodes (oldBody d) (oldRange offs)
                                  (int (length (oldWt d))),
                                FindMatchingNodes (newBody d) (newRange offs)
                                  (int (length (newWt d))),
                                HtmlDiff origHTML newHTML]
                   in if length diff > 0 \<and> normalizeWikitext wt1 \<noteq> normalizeWikitext wt2
                      then Inr (thisResult\<lparr>htmlDiffOf := Some diff, kind := Fail,
                                   wtDiff := formatDiff (oldWt d) (newWt d) offs 25\<rparr>,
                                h1, calls)
                      else Inr (thisResult, h1, calls))))"

fun fullDiffsR ::
  "nat set \<Rightarrow> collaborators \<Rightarrow> data \<Rightarrow> ref list \<Rightarrow> store \<Rightarrow>
   error + DiffResult list \<times> store \<times> event list"
where
  "fullDiffsR malformed du d [] h = Inr ([], h, [])"
| "fullDiffsR malformed du d (r # rs) h =
     (case diffRegionR malformed du d r h of
        Inl e \<Rightarrow> Inl e
      | Inr (res, h1, calls1) \<Rightarrow>
          (case fullDiffsR malformed du d rs h1 of
             Inl e \<Rightarrow> Inl e
           | Inr (results, h2, calls2) \<Rightarrow> Inr (res # results, h2, calls1 @ calls2)))"

definition checkIfSignificantR ::
  "nat set \<Rightarrow> collaborators \<Rightarrow> ref list \<Rightarrow> data \<Rightarrow> store \<Rightarrow>
   error + DiffResult list \<times> store \<times> event list"
where
  "checkIfSignificantR malformed du offsets d h =
     (if quickTest du d then
        Inr (map (\<lambda>r. \<lparr>kind = Skip, offset = r,
                         wtDiff = formatDiff (oldWt d) (newWt d) (h r) 0, htmlDiffOf = None\<rparr>)
               offsets,
             h, [])
      else fullDiffsR malformed du d offsets h)"

section \<open>Derived notions\<close>

text \<open>
  The second and third rule of the Wikitext Normalizer as plain recursions (\<open>fixTabs\<close>
  for \<open>/\n\t/g\<close>, \<open>squeeze\<close> for \<open>/ +/g\<close>), the strings on which they change
  nothing, and the first three rules in a row.
\<close>

fun squeeze :: "string \<Rightarrow> string" where
  "squeeze (a # b # r) = (if a = sp \<and> b = sp then squeeze (b # r) else a # squeeze (b # r))"
| "squeeze r = r"

fun fixTabs :: "string \<Rightarrow> string" where
  "fixTabs (a # b # r) = (if a = nl \<and> b = tab then nl # sp # fixTabs r else a # fixTabs (b # r))"
| "fixTabs r = r"

fun noDoubleSpace :: "string \<Rightarrow> bool" where
  "noDoubleSpace (a # b # r) = (\<not> (a = sp \<and> b = sp) \<and> noDoubleSpace (b # r))"
| "noDoubleSpace r = True"

fun noNlTab :: "string \<Rightarrow> bool" where
  "noNlTab (a # b # r) = (\<not> (a = nl \<and> b = tab) \<and> noNlTab (b # r))"
| "noNlTab r = True"

definition whitespaceRules :: "string \<Rightarrow> string" where
  "whitespaceRules s = squeeze (fixTabs (leadingTab s))"

text \<open>
  The children the loop of \<open>walkDOM\<close> can come to: from a child it goes on with
  \<open>nextSiblings\<close>, so the siblings \<open>skipOverEncapsulatedContent\<close> passes over are
  left out.
\<close>

lemma length_nextSiblings: "length (nextSiblings du c cs) \<le> length cs"
  by (simp add: nextSiblings_def)

function scannedChildren :: "collaborators \<Rightarrow> node list \<Rightarrow> node list" where
  "scannedChildren du [] = []"
| "scannedChildren du (c # cs) = c # scannedChildren du (nextSiblings du c cs)"
  by pat_completeness auto
termination
  by (relation "measure (\<lambda>(du, cs). length cs)") (auto simp: length_nextSiblings le_imp_less_Suc)

lemma set_nextSiblings: "set (nextSiblings du c cs) \<subseteq> set cs"
  by (auto simp: nextSiblings_def dest: in_set_dropD)

lemma set_scannedChildren: "set (scannedChildren du cs) \<subseteq> set cs"
proof (induction du cs rule: scannedChildren.induct)
  case (1 du)
  show ?case by simp
next
  case (2 du c cs)
  then show ?case using set_nextSiblings[of du c cs] by auto
qed

lemma size_child: "c \<in> set kids \<Longrightarrow> size c < Suc (size_list size kids)"
  by (induction kids) auto

text \<open>A node, and all below it that lie on a path of such children.\<close>

function reachableNodes :: "collaborators \<Rightarrow> node \<Rightarrow> node list" where
  "reachableNodes du n = n # concat (map (reachableNodes du) (scannedChildren du (childNodes n)))"
  by pat_completeness auto
termination
proof (relation "measure (\<lambda>(du, n). size n)")
  show "wf (measure (\<lambda>(du, n). size n))" by simp
next
  fix du n x
  assume "x \<in> set (scannedChildren du (childNodes n))"
  then have x: "x \<in> set (childNodes n)" using set_scannedChildren by blast
  then show "((du, x), (du, n)) \<in> measure (\<lambda>(du, n). size n)"
    by (cases n) (auto dest: size_child)
qed

declare reachableNodes.simps [simp del]

text \<open>
  The body of the classifier's loop in closed form. \<open>adjusted\<close> is the pair behind line
  395; \<open>regionHtmlDiff\<close> is \<open>diff\<close> of line 418, \<open>excerptsDiffer\<close> is
  \<open>normWT1 !== normWT2\<close> of line 428, both for the pair as it then stands;
  \<open>regionResult\<close> is \<open>thisResult\<close> and \<open>regionCalls\<close> the calls made.
\<close>

definition adjusted :: "data \<Rightarrow> OffsetPair \<Rightarrow> OffsetPair" where
  "adjusted d offs = (if implicitlyClosed d offs then decrementOldStart offs else offs)"

definition matchedHTML :: "collaborators \<Rightarrow> node \<Rightarrow> range \<Rightarrow> string \<Rightarrow> string" where
  "matchedHTML du body tr wt =
     fragmentHTML du (matchedNodes (findMatchingNodes du body tr (int (length wt))))"

definition regionHtmlDiff :: "collaborators \<Rightarrow> data \<Rightarrow> OffsetPair \<Rightarrow> string" where
  "regionHtmlDiff du d offs =
     htmlDiff du (matchedHTML du (oldBody d) (oldRange offs) (oldWt d))
                 (matchedHTML du (newBody d) (newRange offs) (newWt d))"

definition excerptsDiffer :: "data \<Rightarrow> OffsetPair \<Rightarrow> bool" where
  "excerptsDiffer d offs =
     (normalizeWikitext (substring (oldWt d) (rangeStart (oldRange offs)) (rangeEnd (oldRange offs)))
      \<noteq> normalizeWikitext (substring (newWt d) (rangeStart (newRange offs)) (rangeEnd (newRange offs))))"

definition regionResult :: "collaborators \<Rightarrow> data \<Rightarrow> ref \<Rightarrow> OffsetPair \<Rightarrow> DiffResult" where
  "regionResult du d r offs =
     (if regionHtmlDiff du d offs \<noteq> [] \<and> excerptsDiffer d offs
      then \<lparr>kind = Fail, offset = r, wtDiff = formatDiff (oldWt d) (newWt d) offs 25,
            htmlDiffOf = Some (regionHtmlDiff du d offs)\<rparr>
      else \<lparr>kind = Skip, offset = r, wtDiff = formatDiff (oldWt d) (newWt d) offs 0,
            htmlDiffOf = None\<rparr>)"

definition regionCalls :: "collaborators \<Rightarrow> data \<Rightarrow> OffsetPair \<Rightarrow> event list" where
  "regionCalls du d offs =
     [FindMatchingNodes (oldBody d) (oldRange offs) (int (length (oldWt d))),
      FindMatchingNodes (newBody d) (newRange offs) (int (length (newWt d))),
      HtmlDiff (matchedHTML du (oldBody d) (oldRange offs) (oldWt d))
               (matchedHTML du (newBody d) (newRange offs) (newWt d))]"

section \<open>Sample collaborators and documents\<close>

text \<open>
  Simple stand-ins for the collaborators, to run the program on concrete documents: a
  comment costs its text and the seven code units of its delimiters, nothing is passed
  over behind an encapsulated node, a node serializes to its text or to a tag with its
  identifier, and two fragments differ when they are not the same string.
\<close>

fun sampleSerialize :: "node \<Rightarrow> string" where
  "sampleSerialize (TextNode i v) = v"
| "sampleSerialize (CommentNode i v) = ''<!--'' @ v @ ''-->''"
| "sampleSerialize (Elt i dp ty kids) = ''<e'' @ replicate i (CHR ''i'') @ ''/>''"

definition sampleDU :: collaborators where
  "sampleDU =
     \<lparr>decodedCommentLength = (\<lambda>n. case n of CommentNode i v \<Rightarrow> length v + 7 | _ \<Rightarrow> 0),
      skipOverEncapsulatedContent = (\<lambda>n cs. 0),
      serializeNode = sampleSerialize,
      normalizeOut = (\<lambda>s. s),
      normalizeOutBody = (\<lambda>n. concat (map sampleSerialize (childNodes n))),
      formatHTML = (\<lambda>s. s),
      outerHTML = (\<lambda>n. concat (map sampleSerialize (childNodes n))),
      htmlDiff = (\<lambda>a b. if a = b then [] else ''-'' @ a @ [nl] @ ''+'' @ b)\<rparr>"

text \<open>
  Two round trips of \<open><b>x\<close>, which comes back as \<open><b>x</b>\<close>: in the first the two
  bodies normalize to the same markup, in the second they do not. The one changed region
  is the inserted closing tag. In the third, \<open>a b\<close> comes back as \<open>a c\<close>.
\<close>

definition sampleStore :: store where
  "sampleStore = (\<lambda>r. \<lparr>oldRange = \<lparr>rangeStart = 4, rangeEnd = 4\<rparr>,
                          newRange = \<lparr>rangeStart = 4, rangeEnd = 8\<rparr>\<rparr>)"

definition sampleSame :: data where
  "sampleSame =
     \<lparr>oldWt = ''<b>x'', newWt = ''<b>x</b>'',
      oldBody = Elt 1 None [] [Elt 2 (Some [Some 0, Some 4]) [] [TextNode 3 ''x'']],
      newBody = Elt 1 None [] [Elt 2 (Some [Some 0, Some 8]) [] [TextNode 3 ''x'']]\<rparr>"

definition sampleClosed :: data where
  "sampleClosed =
     \<lparr>oldWt = ''<b>x'', newWt = ''<b>x</b>'',
      oldBody = Elt 1 None [] [Elt 2 (Some [Some 0, Some 4]) [] [TextNode 3 ''x'']],
      newBody = Elt 1 None [] [Elt 4 (Some [Some 0, Some 8]) [] [TextNode 3 ''x'']]\<rparr>"

definition changedStore :: store where
  "changedStore = (\<lambda>r. \<lparr>oldRange = \<lparr>rangeStart = 2, rangeEnd = 3\<rparr>,
                           newRange = \<lparr>rangeStart = 2, rangeEnd = 3\<rparr>\<rparr>)"

definition sampleChanged :: data where
  "sampleChanged =
     \<lparr>oldWt = ''a b'', newWt = ''a c'',
      oldBody = Elt 1 None [] [Elt 2 (Some [Some 0, Some 2]) [] [TextNode 4 ''a ''],
                               Elt 3 (Some [Some 2, Some 3]) [] [TextNode 5 ''b'']],
      newBody = Elt 1 None [] [Elt 2 (Some [Some 0, Some 2]) [] [TextNode 4 ''a ''],
                               Elt 6 (Some [Some 2, Some 3]) [] [TextNode 7 ''c'']]\<rparr>"

text \<open>
  A transclusion whose wrapper has two element children with spans of their own, and a
  body in which an encapsulated node has one sibling to pass over.
\<close>

definition sampleTransclusion :: node where
  "sampleTransclusion =
     Elt 2 (Some [Some 0, Some 10]) ''mw:Transclusion''
       [Elt 3 (Some [Some 0, Some 4]) [] [TextNode 5 ''abcd''],
        Elt 4 (Some [Some 4, Some 10]) [] [TextNode 6 ''efghij'']]"

definition sampleBody :: node where
  "sampleBody =
     Elt 1 (Some [Some 0, Some 20]) [] [sampleTransclusion, TextNode 7 ''0123456789'']"

definition skippingDU :: collaborators where
  "skippingDU = sampleDU\<lparr>skipOverEncapsulatedContent := (\<lambda>n cs. 1)\<rparr>"

definition sampleAbout :: node where
  "sampleAbout =
     Elt 1 None []
       [Elt 2 (Some [Some 0, Some 5]) ''mw:Transclusion'' [],
        Elt 3 (Some [Some 5, Some 10]) [] [],
        Elt 4 (Some [Some 10, Some 15]) [] []]"

text \<open>
  A body whose first child carries a \<open>data-parsoid\<close> attribute that is not JSON (the
  element 2, read as having no \<open>dsr\<close>), for the region \<open>[0, 3)\<close> of \<open>abcde\<close>.
\<close>

definition malformedStore :: store where
  "malformedStore = (\<lambda>r. \<lparr>oldRange = \<lparr>rangeStart = 0, rangeEnd = 3\<rparr>,
                             newRange = \<lparr>rangeStart = 0, rangeEnd = 3\<rparr>\<rparr>)"

definition sampleMalformed :: data where
  "sampleMalformed =
     \<lparr>oldWt = ''abcde'', newWt = ''abXde'',
      oldBody = Elt 1 (Some [Some 0, Some 5]) []
                  [Elt 2 None [] [TextNode 3 ''abc''], TextNode 4 ''de''],
      newBody = Elt 5 (Some [Some 0, Some 5]) []
                  [Elt 6 (Some [Some 0, Some 3]) [] [TextNode 7 ''abX''], TextNode 8 ''de'']\<rparr>"

section \<open>Properties of the Wikitext Normalizer\<close>

text \<open>
  A global replacement whose expression matches nowhere returns its input; and each of
  the later rules needs one of \<open><\<close>, \<open>|\<close>, \<open>!\<close> or a double quote to match.
\<close>

lemma gsub_no_match:
  "(\<forall>b t. set t \<subseteq> set s \<longrightarrow> m b t = None) \<Longrightarrow> gsub m b0 s = s"
proof (induction s arbitrary: b0)
  case Nil
  then show ?case by simp
next
  case (Cons c cs)
  have "m b0 (c # cs) = None" using Cons.prems by simp
  moreover have "gsub m False cs = cs"
    by (rule Cons.IH) (use Cons.prems in auto)
  ultimately show ?case by simp
qed

lemma startsWith_hd: "startsWith (p # ps) s \<Longrightarrow> p \<in> set s"
  by (cases s) auto

lemma set_tl_subset: "x \<in> set (tl xs) \<Longrightarrow> x \<in> set xs"
  by (cases xs) auto

lemma startsWith_hd2: "startsWith (p # q # ps) s \<Longrightarrow> q \<in> set s"
  by (cases s) (auto dest: startsWith_hd)

lemma tagMatch_None: "CHR ''<'' \<notin> set t \<Longrightarrow> tagMatch b t = None"
  by (cases t) (auto simp: tagMatch_def)

lemma tableGroup2_None:
  "CHR ''|'' \<notin> set t \<Longrightarrow> CHR ''!'' \<notin> set t \<Longrightarrow> tableGroup2 t = None"
  by (auto simp: tableGroup2_def dest: startsWith_hd startsWith_hd2)

lemma tableMatch_None:
  assumes "CHR ''|'' \<notin> set t" "CHR ''!'' \<notin> set t"
  shows "tableMatch b t = None"
proof -
  have "tableGroup2 t = None" using assms by (rule tableGroup2_None)
  moreover have "tableGroup2 (tl t) = None"
    using assms by (intro tableGroup2_None) (auto dest: set_tl_subset)
  ultimately have "tableGroup1 b t = None"
    using assms by (auto simp: tableGroup1_def dest: startsWith_hd)
  then show ?thesis by (simp add: tableMatch_def)
qed

lemma styleMatch_None: "dq \<notin> set t \<Longrightarrow> styleMatch b t = None"
proof -
  assume a: "dq \<notin> set t"
  have "\<not> startsWith [dq] (dropWhile isSpace (tl (dropWhile isSpace (drop 5 t))))"
  proof
    assume "startsWith [dq] (dropWhile isSpace (tl (dropWhile isSpace (drop 5 t))))"
    then have "dq \<in> set (dropWhile isSpace (tl (dropWhile isSpace (drop 5 t))))"
      by (rule startsWith_hd)
    then have "dq \<in> set (tl (dropWhile isSpace (drop 5 t)))"
      using set_dropWhileD by fastforce
    then have "dq \<in> set (dropWhile isSpace (drop 5 t))"
      by (metis list.sel(2) list.set_sel(2))
    then have "dq \<in> set (drop 5 t)" using set_dropWhileD by fastforce
    then show False using a by (meson in_set_dropD)
  qed
  then show ?thesis by (simp add: styleMatch_def Let_def)
qed

lemma quoteMatch_None: "dq \<notin> set t \<Longrightarrow> quoteMatch b t = None"
  by (cases t) (auto simp: quoteMatch_def)

lemma closeAt_None: "CHR ''<'' \<notin> set t \<Longrightarrow> closeAt False t = None"
  by (auto simp: closeAt_def closeTagLen_def dest: startsWith_hd)

lemma implicitCloseLine_None: "CHR ''<'' \<notin> set t \<Longrightarrow> implicitCloseLine b t = None"
proof -
  assume a: "CHR ''<'' \<notin> set t"
  then have "CHR ''<'' \<notin> set (tl t)" by (metis list.sel(2) list.set_sel(2))
  with a show ?thesis by (simp add: implicitCloseLine_def closeAt_None)
qed

lemma implicitCloseCell_None:
  "CHR ''|'' \<notin> set t \<Longrightarrow> CHR ''!'' \<notin> set t \<Longrightarrow> implicitCloseCell b t = None"
  by (cases t) (auto simp: implicitCloseCell_def)

text \<open>
  C3, as stated: the Wikitext Normalizer is idempotent on every string. It is not:
  from \<open>a " " b\<close> the quote rule takes the two quotes away and leaves three spaces,
  which the space rule, already past, collapses only in a second run.
\<close>

theorem normalizeWikitext_not_idempotent:
  "normalizeWikitext (normalizeWikitext [CHR ''a'', sp, dq, sp, dq, sp, CHR ''b''])
     \<noteq> normalizeWikitext [CHR ''a'', sp, dq, sp, dq, sp, CHR ''b'']"
  by code_simp

text \<open>
  The two whitespace replacements are the plain recursions; what these return is in the
  shape they leave alone.
\<close>

lemma sp_neq: "sp \<noteq> tab" "sp \<noteq> nl" "nl \<noteq> tab"
  by (simp_all add: sp_def tab_def nl_def)

lemma squeeze_space: "squeeze (sp # cs) = sp # squeeze (dropWhile (\<lambda>x. x = sp) cs)"
  by (induction cs) auto

lemma gsub_spaces: "gsub spacesMatch b s = squeeze s"
proof (induction "spacesMatch" b s rule: gsub.induct)
  case (1 b)
  show ?case by (simp add: spacesMatch_def)
next
  case (2 b c cs)
  show ?case
  proof (cases "c = sp")
    case True
    let ?n = "length (takeWhile (\<lambda>x. x = sp) (c # cs))"
    have m: "spacesMatch b (c # cs) = Some ([sp], ?n)" using True by (simp add: spacesMatch_def)
    have n: "?n \<noteq> 0" using True by simp
    have d: "drop ?n (c # cs) = dropWhile (\<lambda>x. x = sp) cs"
      using True by (simp add: dropWhile_eq_drop)
    have "gsub spacesMatch False (drop ?n (c # cs)) = squeeze (drop ?n (c # cs))"
      by (rule "2.hyps"(3)[OF m refl n])
    then show ?thesis using m n d True by (simp add: squeeze_space)
  next
    case False
    then have m: "spacesMatch b (c # cs) = None" by (simp add: spacesMatch_def)
    have "gsub spacesMatch False cs = squeeze cs" by (rule "2.hyps"(1)[OF m])
    then show ?thesis using m False by (cases cs) auto
  qed
qed

lemma gsub_nlTab: "gsub nlTabMatch b s = fixTabs s"
proof (induction "nlTabMatch" b s rule: gsub.induct)
  case (1 b)
  show ?case by (simp add: nlTabMatch_def)
next
  case (2 b c cs)
  show ?case
  proof (cases "startsWith [nl, tab] (c # cs)")
    case True
    then obtain r where r: "c = nl" "cs = tab # r" by (cases cs) auto
    have m: "nlTabMatch b (c # cs) = Some ([nl, sp], 2)" using True by (simp add: nlTabMatch_def)
    have "gsub nlTabMatch False (drop 2 (c # cs)) = fixTabs (drop 2 (c # cs))"
      by (rule "2.hyps"(3)[OF m refl]) simp
    then show ?thesis using m r by simp
  next
    case False
    then have m: "nlTabMatch b (c # cs) = None" by (simp add: nlTabMatch_def)
    have "gsub nlTabMatch False cs = fixTabs cs" by (rule "2.hyps"(1)[OF m])
    then show ?thesis using m False by (cases cs) auto
  qed
qed

lemma squeeze_head: "\<exists>t. squeeze (c # cs) = c # t"
  by (induction cs arbitrary: c) auto

lemma fixTabs_head: "\<exists>t. fixTabs (c # cs) = c # t"
  by (cases cs) auto

lemma noDoubleSpace_squeeze: "noDoubleSpace (squeeze s)"
proof (induction s rule: squeeze.induct)
  case (1 a b r)
  obtain t where t: "squeeze (b # r) = b # t" using squeeze_head by blast
  show ?case using 1 t by auto
qed simp_all

lemma squeeze_fixed: "noDoubleSpace s \<Longrightarrow> squeeze s = s"
  by (induction s rule: squeeze.induct) auto

lemma noNlTab_squeeze: "noNlTab s \<Longrightarrow> noNlTab (squeeze s)"
proof (induction s rule: squeeze.induct)
  case (1 a b r)
  obtain t where t: "squeeze (b # r) = b # t" using squeeze_head by blast
  show ?case using 1 t by auto
qed simp_all

lemma noNlTab_space: "noNlTab s \<Longrightarrow> noNlTab (sp # s)"
  by (cases s) (auto simp: sp_neq)

lemma noNlTab_fixTabs: "noNlTab (fixTabs s)"
proof (induction s rule: fixTabs.induct)
  case (1 a b r)
  obtain t where t: "fixTabs (b # r) = b # t" using fixTabs_head by blast
  show ?case
  proof (cases "a = nl \<and> b = tab")
    case True
    then have "noNlTab (fixTabs r)" using 1 by simp
    then have "noNlTab (sp # fixTabs r)" by (rule noNlTab_space)
    then show ?thesis using True by (simp add: sp_neq)
  next
    case False
    then show ?thesis using 1 t by auto
  qed
qed simp_all

lemma fixTabs_fixed: "noNlTab s \<Longrightarrow> fixTabs s = s"
  by (induction s rule: fixTabs.induct) auto

lemma set_squeeze: "set (squeeze s) \<subseteq> set s"
  by (induction s rule: squeeze.induct) auto

lemma set_fixTabs: "set (fixTabs s) \<subseteq> insert sp (set s)"
  by (induction s rule: fixTabs.induct) auto

lemma set_leadingTab: "set (leadingTab s) \<subseteq> insert sp (set s)"
  by (cases s) (auto simp: leadingTab_def)

lemma whitespaceRules_head:
  assumes "whitespaceRules s \<noteq> []"
  shows "hd (whitespaceRules s) \<noteq> tab"
proof (cases s)
  case Nil
  then show ?thesis using assms by (simp add: whitespaceRules_def leadingTab_def)
next
  case (Cons c cs)
  have "\<exists>c'. leadingTab s = c' # cs \<and> c' \<noteq> tab"
    using Cons by (cases "c = tab") (simp_all add: leadingTab_def sp_neq)
  then obtain c' where l: "leadingTab s = c' # cs" and c': "c' \<noteq> tab" by blast
  obtain t where "fixTabs (c' # cs) = c' # t" using fixTabs_head by blast
  moreover obtain u where "squeeze (c' # t) = c' # u" using squeeze_head by blast
  ultimately show ?thesis using l c' by (simp add: whitespaceRules_def)
qed

lemma whitespaceRules_idem: "whitespaceRules (whitespaceRules s) = whitespaceRules s"
proof -
  let ?w = "whitespaceRules s"
  have 1: "leadingTab ?w = ?w"
    using whitespaceRules_head[of s] by (cases ?w) (auto simp: leadingTab_def)
  have "noNlTab ?w" unfolding whitespaceRules_def by (intro noNlTab_squeeze noNlTab_fixTabs)
  then have 2: "fixTabs ?w = ?w" by (rule fixTabs_fixed)
  have "noDoubleSpace ?w" unfolding whitespaceRules_def by (rule noDoubleSpace_squeeze)
  then have 3: "squeeze ?w = ?w" by (rule squeeze_fixed)
  show ?thesis by (subst whitespaceRules_def) (simp add: 1 2 3)
qed

lemma set_whitespaceRules: "set (whitespaceRules s) \<subseteq> insert sp (set s)"
  unfolding whitespaceRules_def
  using set_squeeze[of "fixTabs (leadingTab s)"] set_fixTabs[of "leadingTab s"] set_leadingTab[of s]
  by blast

lemma normalizeWikitext_no_markup:
  assumes "CHR ''<'' \<notin> set s" "CHR ''|'' \<notin> set s" "CHR ''!'' \<notin> set s" "dq \<notin> set s"
  shows "normalizeWikitext s = whitespaceRules s"
proof -
  let ?w = "whitespaceRules s"
  have ne: "sp \<noteq> CHR ''<''" "sp \<noteq> CHR ''|''" "sp \<noteq> CHR ''!''" "sp \<noteq> dq"
    by (simp_all add: sp_def dq_def)
  have l: "CHR ''<'' \<notin> set ?w" and p: "CHR ''|'' \<notin> set ?w" and e: "CHR ''!'' \<notin> set ?w"
    and q: "dq \<notin> set ?w"
    using set_whitespaceRules[of s] assms ne by auto
  have 4: "gsub tagMatch True ?w = ?w"
    by (rule gsub_no_match) (use l in \<open>auto intro!: tagMatch_None\<close>)
  have 5: "gsub tableMatch True ?w = ?w"
    by (rule gsub_no_match) (use p e in \<open>auto intro!: tableMatch_None\<close>)
  have 6: "gsub styleMatch True ?w = ?w"
    by (rule gsub_no_match) (use q in \<open>auto intro!: styleMatch_None\<close>)
  have 7: "gsub quoteMatch True ?w = ?w"
    by (rule gsub_no_match) (use q in \<open>auto intro!: quoteMatch_None\<close>)
  have 8: "gsub implicitCloseLine True ?w = ?w"
    by (rule gsub_no_match) (use l in \<open>auto intro!: implicitCloseLine_None\<close>)
  have 9: "gsub implicitCloseCell True ?w = ?w"
    by (rule gsub_no_match) (use p e in \<open>auto intro!: implicitCloseCell_None\<close>)
  have w: "gsub spacesMatch True (gsub nlTabMatch True (leadingTab s)) = ?w"
    by (simp add: gsub_spaces gsub_nlTab whitespaceRules_def)
  show ?thesis by (simp add: normalizeWikitext_def w 4 5 6 7 8 9)
qed

text \<open>
  C3, amended: on a string with no \<open><\<close>, \<open>|\<close>, \<open>!\<close> and no double quote the
  Wikitext Normalizer is idempotent. There only its whitespace rules apply (the leading
  tab, the tab behind a newline, the runs of spaces), and what they leave they leave alone.
\<close>

theorem normalizeWikitext_idempotent_text:
  assumes "\<forall>c\<in>set s. c \<notin> set [CHR ''<'', CHR ''|'', CHR ''!'', dq]"
  shows "normalizeWikitext (normalizeWikitext s) = normalizeWikitext s"
proof -
  have a: "CHR ''<'' \<notin> set s" "CHR ''|'' \<notin> set s" "CHR ''!'' \<notin> set s" "dq \<notin> set s"
    using assms by auto
  have n: "normalizeWikitext s = whitespaceRules s" by (rule normalizeWikitext_no_markup[OF a])
  have ne: "sp \<noteq> CHR ''<''" "sp \<noteq> CHR ''|''" "sp \<noteq> CHR ''!''" "sp \<noteq> dq"
    by (simp_all add: sp_def dq_def)
  have b: "CHR ''<'' \<notin> set (whitespaceRules s)" "CHR ''|'' \<notin> set (whitespaceRules s)"
    "CHR ''!'' \<notin> set (whitespaceRules s)" "dq \<notin> set (whitespaceRules s)"
    using set_whitespaceRules[of s] a ne by auto
  have "normalizeWikitext (whitespaceRules s) = whitespaceRules (whitespaceRules s)"
    by (rule normalizeWikitext_no_markup[OF b])
  then show ?thesis using n by (simp add: whitespaceRules_idem)
qed

theorem normalizeWikitext_idempotent_text_witness:
  "normalizeWikitext [tab, CHR ''a'', sp, sp, CHR ''b'', nl, tab, CHR ''c''] =
     [sp, CHR ''a'', sp, CHR ''b'', nl, sp, CHR ''c''] \<and>
   normalizeWikitext (normalizeWikitext [tab, CHR ''a'', sp, sp, CHR ''b'', nl, tab, CHR ''c'']) =
     normalizeWikitext [tab, CHR ''a'', sp, sp, CHR ''b'', nl, tab, CHR ''c'']"
proof -
  have e: "normalizeWikitext [tab, CHR ''a'', sp, sp, CHR ''b'', nl, tab, CHR ''c''] =
     [sp, CHR ''a'', sp, CHR ''b'', nl, sp, CHR ''c'']" by code_simp
  have h: "\<forall>c\<in>set [tab, CHR ''a'', sp, sp, CHR ''b'', nl, tab, CHR ''c''].
             c \<notin> set [CHR ''<'', CHR ''|'', CHR ''!'', dq]"
    by (simp add: tab_def sp_def nl_def dq_def)
  from normalizeWikitext_idempotent_text [OF h] e show ?thesis by blast
qed

section \<open>Properties of the Node Matcher\<close>

subsection \<open>What the steps return\<close>

text \<open>
  The nodes a step hands on are the element, the child, nodes of the child's result, or
  nodes held back in \<open>precedingNodes\<close>.
\<close>

lemma checkSpan_nodes:
  "checkSpan tr sl e dp st = (Return (Some r), st') \<Longrightarrow> nodes r = [e]"
  by (auto simp: checkSpan_def Let_def split: option.splits if_splits)

lemma finish_nodes:
  "finish e els st = Some r \<Longrightarrow> nodes r = [e] \<or> (nodes r = els \<and> els \<noteq> [])"
  by (auto simp: finish_def Let_def split: if_splits)

lemma elementStep_Inl:
  "elementStep du tr dp c res els pre st = (Inl r, st') \<Longrightarrow>
     \<exists>r0. res = Some r0 \<and>
       (nodes r = nodes r0 \<or> nodes r = elesOnOffset du (dsrAt (the dp) 0) tr pre @ nodes r0)"
  by (auto simp: elementStep_def split: option.splits if_splits prod.splits)

lemma elementStep_Inr:
  "elementStep du tr dp c res els pre st = (Inr (els', pre'), st') \<Longrightarrow>
     pre' = [] \<and>
     (els' = els \<or> els' = els @ [c] \<or>
      (\<exists>r0. res = Some r0 \<and>
         (els' = nodes r0 \<or> els' = elesOnOffset du (dsrAt (the dp) 0) tr pre @ nodes r0)))"
  by (auto simp: elementStep_def split: option.splits if_splits prod.splits)

lemma textStep_result:
  "textStep du tr c els pre st = (x, st') \<Longrightarrow>
     x = Inr (els @ [c], pre) \<or> x = Inr (els, pre @ [c]) \<or> x = Inr (els, pre)"
  by (auto simp: textStep_def Let_def split: option.splits if_splits)

lemma walk_nonempty:
  "(\<forall>r st'. walkDOM du tr sl n st = (Some r, st') \<longrightarrow> nodes r \<noteq> [])"
  "(\<forall>r st'. walkChildren du tr sl dp cs els pre st = (Inl r, st') \<longrightarrow> nodes r \<noteq> [])"
proof (induction du tr sl n st and du tr sl dp cs els pre st rule: walkDOM_walkChildren.induct)
  case (1 du targetRange sourceLen i v st)
  then show ?case by simp
next
  case (2 du targetRange sourceLen i v st)
  then show ?case by simp
next
  case (3 du tr sl i dp ty kids st)
  show ?case
  proof (intro allI impI)
    fix r st'
    assume a: "walkDOM du tr sl (Elt i dp ty kids) st = (Some r, st')"
    obtain x y where xy: "checkSpan tr sl (Elt i dp ty kids) dp (visit i st) = (x, y)"
      by (cases "checkSpan tr sl (Elt i dp ty kids) dp (visit i st)")
    show "nodes r \<noteq> []"
    proof (cases x)
      case (Return ro)
      with a xy have "ro = Some r" by simp
      with xy Return show ?thesis by (auto dest: checkSpan_nodes)
    next
      case Proceed
      obtain w st2 where w: "walkChildren du tr sl dp kids [] [] y = (w, st2)"
        by (cases "walkChildren du tr sl dp kids [] [] y")
      show ?thesis
      proof (cases w)
        case (Inl r')
        with a xy Proceed w have "r' = r" by simp
        with "3.IH"[OF xy[symmetric] Proceed] w Inl show ?thesis by simp
      next
        case (Inr els)
        with a xy Proceed w have "finish (Elt i dp ty kids) els st2 = Some r" by auto
        then show ?thesis by (auto dest: finish_nodes)
      qed
    qed
  qed
next
  case (4 du targetRange sourceLen dp elements precedingNodes st)
  then show ?case by simp
next
  case (5 du tr sl dp c cs els pre st)
  let ?st = "st\<lparr>wasWaiting := waitingForEndMatch st\<rparr>"
  let ?step = "(if isElt c
            then case walkDOM du tr sl c ?st of
                 (res, x) \<Rightarrow> elementStep du tr dp c res els pre x
            else textStep du tr c els pre ?st)"
  show ?case
  proof (intro allI impI)
    fix r st'
    assume a: "walkChildren du tr sl dp (c # cs) els pre st = (Inl r, st')"
    obtain x y where xy: "?step = (x, y)" by (cases ?step)
    show "nodes r \<noteq> []"
    proof (cases x)
      case (Inl r')
      with a xy have rr: "r' = r" by simp
      have elt: "isElt c"
      proof (rule ccontr)
        assume "\<not> isElt c"
        with xy Inl have "textStep du tr c els pre ?st = (Inl r', y)" by simp
        then show False by (auto dest: textStep_result)
      qed
      obtain res s1 where w: "walkDOM du tr sl c ?st = (res, s1)"
        by (cases "walkDOM du tr sl c ?st")
      with xy elt Inl rr have "elementStep du tr dp c res els pre s1 = (Inl r, y)" by simp
      then obtain r0 where r0: "res = Some r0"
        and n: "nodes r = nodes r0 \<or> nodes r = elesOnOffset du (dsrAt (the dp) 0) tr pre @ nodes r0"
        by (auto dest: elementStep_Inl)
      have "nodes r0 \<noteq> []" using "5.IH"(1)[OF elt] w r0 by simp
      with n show ?thesis by auto
    next
      case (Inr b)
      obtain xa ya where b: "b = (xa, ya)" by (cases b)
      show ?thesis
      proof (cases "wasWaiting y \<and> \<not> waitingForEndMatch y")
        case True
        with a xy Inr b show ?thesis by simp
      next
        case False
        with a xy Inr b have
          "walkChildren du tr sl dp (nextSiblings du c cs) xa ya y = (Inl r, st')"
          by simp
        with "5.IH"(2)[OF xy[symmetric] Inr b[symmetric] False] show ?thesis by simp
      qed
    qed
  qed
qed

text \<open>C9: a match result that is not \<open>null\<close> has a node in it, for every call of
  \<open>walkDOM\<close> in whatever state, and so for \<open>findMatchingNodes\<close>.\<close>

theorem match_result_nonempty:
  "(walkDOM du tr sl n st = (Some r, st') \<longrightarrow> nodes r \<noteq> []) \<and>
   (findMatchingNodes du root tr sl = Some r' \<longrightarrow> nodes r' \<noteq> [])"
proof
  show "walkDOM du tr sl n st = (Some r, st') \<longrightarrow> nodes r \<noteq> []"
    using walk_nonempty(1)[of du tr sl n st] by blast
next
  show "findMatchingNodes du root tr sl = Some r' \<longrightarrow> nodes r' \<noteq> []"
  proof
    assume a: "findMatchingNodes du root tr sl = Some r'"
    obtain st' where "walkDOM du tr sl root initialState = (Some r', st')"
      using a by (cases "walkDOM du tr sl root initialState") (simp add: findMatchingNodes_def)
    then show "nodes r' \<noteq> []" using walk_nonempty(1)[of du tr sl root initialState] by blast
  qed
qed

theorem match_result_nonempty_witness:
  "findMatchingNodes sampleDU sampleBody \<lparr>rangeStart = 4, rangeEnd = 10\<rparr> 20 =
     Some \<lparr>done' = True, nodes = [Elt 4 (Some [Some 4, Some 10]) [] [TextNode 6 ''efghij'']]\<rparr> \<and>
   nodes \<lparr>done' = True, nodes = [Elt 4 (Some [Some 4, Some 10]) [] [TextNode 6 ''efghij'']]\<rparr> \<noteq> []"
proof -
  have e: "findMatchingNodes sampleDU sampleBody \<lparr>rangeStart = 4, rangeEnd = 10\<rparr> 20 =
     Some \<lparr>done' = True, nodes = [Elt 4 (Some [Some 4, Some 10]) [] [TextNode 6 ''efghij'']]\<rparr>"
    by code_simp
  from match_result_nonempty [of sampleDU "\<lparr>rangeStart = 4, rangeEnd = 10\<rparr>" 20 sampleBody
      initialState _ _ sampleBody
      "\<lparr>done' = True, nodes = [Elt 4 (Some [Some 4, Some 10]) [] [TextNode 6 ''efghij'']]\<rparr>"] e
  show ?thesis by blast
qed

subsection \<open>Exact match\<close>

text \<open>
  C5, as stated: a node whose span is the target, with a start that is not defaulted and
  the matcher not waiting for the end, is returned alone. For an empty span the test of
  line 172 comes first and returns \<open>null\<close>: with \<open>s = e\<close>, \<open>targetRange.end - 1 < start\<close>.
\<close>

theorem exact_empty_span_pruned:
  "findMatchingNodes sampleDU (Elt 1 (Some [Some 5, Some 5]) [] [TextNode 2 []])
     \<lparr>rangeStart = 5, rangeEnd = 5\<rparr> 20 = None"
  by code_simp

text \<open>
  C5, amended: for a node whose span \<open>[s, e)\<close> is not empty, \<open>0 \<le> s < e\<close>, and equals the
  target, both entries being numbers in the node's \<open>dsr\<close>, and with the matcher not
  waiting for the end, \<open>walkDOM\<close> returns \<open>{done: true, nodes: [node]}\<close>; the shared
  state is as before, and the walk was on this node only, whatever its children are.
\<close>

theorem exact_match_returns_node:
  assumes d0: "dsrAt d 0 = Some s" and d1: "dsrAt d 1 = Some e"
    and s: "s = rangeStart tr" and e: "e = rangeEnd tr"
    and lt: "s < e" and nn: "0 \<le> s"
    and w: "\<not> waitingForEndMatch st"
  shows "walkDOM du tr sl (Elt i (Some d) ty kids) st =
           (Some \<lparr>done' = True, nodes = [Elt i (Some d) ty kids]\<rparr>,
            st\<lparr>visited := visited st @ [i]\<rparr>)"
proof -
  have len: "length d \<noteq> 0" using d0 by (auto simp: dsrAt_def split: if_splits)
  have st: "orElse (dsrAt d 0) 0 = s" using d0 by (simp add: orElse_def)
  have en: "orElse (dsrAt d 1) (sl - 1) = e" using d1 lt nn by (simp add: orElse_def)
  have "checkSpan tr sl (Elt i (Some d) ty kids) (Some d) (visit i st) =
          (Return (Some \<lparr>done' = True, nodes = [Elt i (Some d) ty kids]\<rparr>), visit i st)"
    using len st en s e lt w d0 by (simp add: checkSpan_def visit_def)
  then show ?thesis by (simp add: visit_def)
qed

theorem exact_match_returns_node_witness:
  "walkDOM sampleDU \<lparr>rangeStart = 5, rangeEnd = 9\<rparr> 20
     (Elt 1 (Some [Some 5, Some 9]) [] [TextNode 2 ''abcd'']) initialState =
   (Some \<lparr>done' = True, nodes = [Elt 1 (Some [Some 5, Some 9]) [] [TextNode 2 ''abcd'']]\<rparr>,
    initialState\<lparr>visited := visited initialState @ [1]\<rparr>)"
  using exact_match_returns_node [of "[Some 5, Some 9]" 5 9 "\<lparr>rangeStart = 5, rangeEnd = 9\<rparr>"
      initialState sampleDU 20 1 "[]" "[TextNode 2 ''abcd'']"]
  by (simp add: dsrAt_def initialState_def)

subsection \<open>Pruning and the defaults of line 170\<close>

text \<open>
  With a start and an end that is not 0 written in the node's \<open>dsr\<close>, the test of line
  172 is the test for a disjoint target, and the node returns \<open>null\<close> with nothing
  below it walked. With the end missing, the node is taken to end at \<open>sourceLen - 1\<close>:
  a target that starts at the last code unit of the source is pruned.
\<close>

lemma disjoint_span_pruned:
  assumes "dsrAt d 0 = Some s" and "dsrAt d 1 = Some e" and "e \<noteq> 0"
    and "rangeEnd tr \<le> s \<or> rangeStart tr \<ge> e"
  shows "walkDOM du tr sl (Elt i (Some d) ty kids) st = (None, st\<lparr>visited := visited st @ [i]\<rparr>)"
proof -
  have len: "length d \<noteq> 0" using assms(1) by (auto simp: dsrAt_def split: if_splits)
  have st: "orElse (dsrAt d 0) 0 = s" using assms(1) by (simp add: orElse_def)
  have en: "orElse (dsrAt d 1) (sl - 1) = e" using assms(2,3) by (simp add: orElse_def)
  have "checkSpan tr sl (Elt i (Some d) ty kids) (Some d) (visit i st) = (Return None, visit i st)"
    using len st en assms(4) by (auto simp: checkSpan_def)
  then show ?thesis by (simp add: visit_def)
qed

lemma unknown_end_prunes_last:
  assumes "d \<noteq> []" and "dsrAt d 1 = None" and "rangeStart tr \<ge> sl - 1"
  shows "walkDOM du tr sl (Elt i (Some d) ty kids) st = (None, st\<lparr>visited := visited st @ [i]\<rparr>)"
proof -
  have en: "orElse (dsrAt d 1) (sl - 1) = sl - 1" using assms(2) by (simp add: orElse_def)
  have "checkSpan tr sl (Elt i (Some d) ty kids) (Some d) (visit i st) = (Return None, visit i st)"
    using assms(1,3) en by (auto simp: checkSpan_def)
  then show ?thesis by (simp add: visit_def)
qed

text \<open>
  C6: a node whose known span is disjoint from the target returns \<open>null\<close> at once. Line
  170 reads the end as \<open>dsr[1] || sourceLen - 1\<close>, so an end of 0 counts as missing. The
  empty element at offset 0 below, with the span \<open>[0, 0)\<close>, is disjoint from the target
  \<open>[0, 5)\<close>; it is not pruned: the walk takes its start for the start of the target and
  sets \<open>waitingForEndMatch\<close>, and the matcher then returns the whole body, where with
  the node pruned nothing is matched.
\<close>

theorem zero_end_not_pruned:
  "walkDOM sampleDU \<lparr>rangeStart = 0, rangeEnd = 5\<rparr> 10
     (Elt 2 (Some [Some 0, Some 0]) [] []) initialState =
     (None, \<lparr>currentOffset = None, wasWaiting = False, waitingForEndMatch = True,
              visited = [2]\<rparr>) \<and>
   findMatchingNodes sampleDU
     (Elt 1 None [] [Elt 2 (Some [Some 0, Some 0]) [] [], TextNode 3 ''hello worl''])
     \<lparr>rangeStart = 0, rangeEnd = 5\<rparr> 10 =
     Some \<lparr>done' = False,
           nodes = [Elt 1 None [] [Elt 2 (Some [Some 0, Some 0]) [] [],
                                  TextNode 3 ''hello worl'']]\<rparr> \<and>
   findMatchingNodes sampleDU (Elt 1 None [] [TextNode 3 ''hello worl''])
     \<lparr>rangeStart = 0, rangeEnd = 5\<rparr> 10 = None"
  by code_simp

text \<open>
  The same at the node alone: for the target \<open>[1, 3)\<close> the element with the span
  \<open>[0, 0)\<close> is not pruned, and the walk goes on to the element below it.
\<close>

lemma zero_end_walks_children:
  "walkDOM sampleDU \<lparr>rangeStart = 1, rangeEnd = 3\<rparr> 10
     (Elt 1 (Some [Some 0, Some 0]) [] [Elt 2 None [] []]) initialState =
     (None, \<lparr>currentOffset = None, wasWaiting = False, waitingForEndMatch = False,
              visited = [1, 2]\<rparr>) \<and>
   walkDOM sampleDU \<lparr>rangeStart = 1, rangeEnd = 3\<rparr> 10
     (Elt 1 (Some [Some 3, Some 3]) [] [Elt 2 None [] []]) initialState =
     (None, \<lparr>currentOffset = None, wasWaiting = False, waitingForEndMatch = False,
              visited = [1]\<rparr>)"
  by code_simp

text \<open>
  C7: a missing end is read as \<open>sourceLen\<close>, so that a root of unknown span holds every
  target within the source. Line 170 puts \<open>sourceLen - 1\<close> there, and the test of line
  172 takes one more off: in a source of length 3 the target \<open>[2, 3)\<close> is pruned at a
  root whose end is unknown, and found at one whose end is written as 3.
\<close>

theorem unknown_end_one_short:
  "findMatchingNodes sampleDU
     (Elt 1 (Some [None, None]) [] [Elt 2 (Some [Some 2, Some 3]) [] []])
     \<lparr>rangeStart = 2, rangeEnd = 3\<rparr> 3 = None \<and>
   findMatchingNodes sampleDU
     (Elt 1 (Some [None, Some 3]) [] [Elt 2 (Some [Some 2, Some 3]) [] []])
     \<lparr>rangeStart = 2, rangeEnd = 3\<rparr> 3 =
     Some \<lparr>done' = True, nodes = [Elt 2 (Some [Some 2, Some 3]) [] []]\<rparr>"
  by code_simp

subsection \<open>Encapsulated content\<close>
lemma popPreceding_subset: "set (popPreceding du diff ns) \<subseteq> set ns"
  by (induction du diff ns rule: popPreceding.induct) (auto simp: Let_def)

lemma elesOnOffset_subset: "set (elesOnOffset du co tr pre) \<subseteq> set pre"
  using popPreceding_subset[of du _ "rev pre"]
  by (auto simp: elesOnOffset_def split: option.splits)

lemma self_reachable: "n \<in> set (reachableNodes du n)"
  by (subst reachableNodes.simps) simp

lemma reachable_children:
  "set (reachableNodes du (Elt i dp ty kids)) =
     insert (Elt i dp ty kids) (\<Union>c\<in>set (scannedChildren du kids). set (reachableNodes du c))"
  by (subst reachableNodes.simps) simp

lemma walk_reachable:
  "(\<forall>r st'. walkDOM du tr sl n st = (Some r, st') \<longrightarrow> set (nodes r) \<subseteq> set (reachableNodes du n))"
  "(\<forall>V x st'. walkChildren du tr sl dp cs els pre st = (x, st') \<longrightarrow>
       (\<Union>c\<in>set (scannedChildren du cs). set (reachableNodes du c)) \<subseteq> V \<longrightarrow>
       set els \<subseteq> V \<longrightarrow> set pre \<subseteq> V \<longrightarrow>
       (case x of Inl r \<Rightarrow> set (nodes r) \<subseteq> V | Inr els' \<Rightarrow> set els' \<subseteq> V))"
proof (induction du tr sl n st and du tr sl dp cs els pre st rule: walkDOM_walkChildren.induct)
  case (1 du targetRange sourceLen i v st)
  then show ?case by simp
next
  case (2 du targetRange sourceLen i v st)
  then show ?case by simp
next
  case (3 du tr sl i dp ty kids st)
  let ?n = "Elt i dp ty kids"
  let ?V = "set (reachableNodes du ?n)"
  show ?case
  proof (intro allI impI)
    fix r st'
    assume a: "walkDOM du tr sl ?n st = (Some r, st')"
    obtain x y where xy: "checkSpan tr sl ?n dp (visit i st) = (x, y)"
      by (cases "checkSpan tr sl ?n dp (visit i st)")
    show "set (nodes r) \<subseteq> ?V"
    proof (cases x)
      case (Return ro)
      with a xy have "ro = Some r" by simp
      with xy Return have "nodes r = [?n]" by (auto dest: checkSpan_nodes)
      then show ?thesis using self_reachable[of ?n du] by simp
    next
      case Proceed
      obtain w st2 where w: "walkChildren du tr sl dp kids [] [] y = (w, st2)"
        by (cases "walkChildren du tr sl dp kids [] [] y")
      have sub: "(\<Union>c\<in>set (scannedChildren du kids). set (reachableNodes du c)) \<subseteq> ?V"
        by (auto simp: reachable_children)
      have res: "case w of Inl r \<Rightarrow> set (nodes r) \<subseteq> ?V | Inr els' \<Rightarrow> set els' \<subseteq> ?V"
        using "3.IH"[OF xy[symmetric] Proceed] w sub by simp
      show ?thesis
      proof (cases w)
        case (Inl r')
        with a xy Proceed w have "r' = r" by simp
        with res Inl show ?thesis by simp
      next
        case (Inr els)
        with a xy Proceed w have "finish ?n els st2 = Some r" by auto
        then have "nodes r = [?n] \<or> nodes r = els" by (auto dest: finish_nodes)
        then show ?thesis using res Inr self_reachable[of ?n du] by auto
      qed
    qed
  qed
next
  case (4 du targetRange sourceLen dp elements precedingNodes st)
  then show ?case by simp
next
  case (5 du tr sl dp c cs els pre st)
  let ?st = "st\<lparr>wasWaiting := waitingForEndMatch st\<rparr>"
  let ?step = "(if isElt c
            then case walkDOM du tr sl c ?st of
                 (res, x) \<Rightarrow> elementStep du tr dp c res els pre x
            else textStep du tr c els pre ?st)"
  show ?case
  proof (intro allI impI)
    fix V x st'
    assume a: "walkChildren du tr sl dp (c # cs) els pre st = (x, st')"
      and U: "(\<Union>c\<in>set (scannedChildren du (c # cs)). set (reachableNodes du c)) \<subseteq> V"
      and e: "set els \<subseteq> V" and p: "set pre \<subseteq> V"
    have cV: "c \<in> V" using U self_reachable[of c du] by auto
    have rV: "set (reachableNodes du c) \<subseteq> V" using U by auto
    have U': "(\<Union>c\<in>set (scannedChildren du (nextSiblings du c cs)). set (reachableNodes du c)) \<subseteq> V"
      using U by auto
    obtain z y where zy: "?step = (z, y)" by (cases ?step)
    have step: "case z of Inl r \<Rightarrow> set (nodes r) \<subseteq> V
                | Inr b \<Rightarrow> set (fst b) \<subseteq> V \<and> set (snd b) \<subseteq> V"
    proof (cases "isElt c")
      case False
      with zy have "textStep du tr c els pre ?st = (z, y)" by simp
      then have "z = Inr (els @ [c], pre) \<or> z = Inr (els, pre @ [c]) \<or> z = Inr (els, pre)"
        by (rule textStep_result)
      then show ?thesis using e p cV by auto
    next
      case True
      obtain res s1 where w: "walkDOM du tr sl c ?st = (res, s1)"
        by (cases "walkDOM du tr sl c ?st")
      with zy True have es: "elementStep du tr dp c res els pre s1 = (z, y)" by simp
      have resV: "\<And>r0. res = Some r0 \<Longrightarrow> set (nodes r0) \<subseteq> V"
        using "5.IH"(1)[OF True] w rV by auto
      have eo: "set (elesOnOffset du (dsrAt (the dp) 0) tr pre) \<subseteq> V"
        using elesOnOffset_subset[of du "dsrAt (the dp) 0" tr pre] p by auto
      show ?thesis
      proof (cases z)
        case (Inl r)
        with es obtain r0 where "res = Some r0"
          and "nodes r = nodes r0 \<or> nodes r = elesOnOffset du (dsrAt (the dp) 0) tr pre @ nodes r0"
          by (auto dest: elementStep_Inl)
        then show ?thesis using Inl resV eo by auto
      next
        case (Inr b)
        obtain xa ya where b: "b = (xa, ya)" by (cases b)
        with es Inr have "elementStep du tr dp c res els pre s1 = (Inr (xa, ya), y)" by simp
        from elementStep_Inr[OF this] show ?thesis using Inr b resV eo e cV by auto
      qed
    qed
    show "case x of Inl r \<Rightarrow> set (nodes r) \<subseteq> V | Inr els' \<Rightarrow> set els' \<subseteq> V"
    proof (cases z)
      case (Inl r)
      with a zy have "x = Inl r" by simp
      with step Inl show ?thesis by simp
    next
      case (Inr b)
      obtain xa ya where b: "b = (xa, ya)" by (cases b)
      show ?thesis
      proof (cases "wasWaiting y \<and> \<not> waitingForEndMatch y")
        case True
        with a zy Inr b have "x = Inr xa" by simp
        with step Inr b show ?thesis by simp
      next
        case False
        with a zy Inr b have
          "walkChildren du tr sl dp (nextSiblings du c cs) xa ya y = (x, st')"
          by simp
        with "5.IH"(2)[OF zy[symmetric] Inr b[symmetric] False] U' step Inr b
        show ?thesis by simp
      qed
    qed
  qed
qed

text \<open>
  C4, as stated: of an encapsulated node nothing is returned but the node itself.
  \<open>walkDOM\<close> is called on an encapsulated child as on any other element, before its
  \<open>typeof\<close> is looked at, and may return a part of it: here the second child of a
  transclusion.
\<close>

theorem encapsulated_node_split:
  "isEncapsulated sampleTransclusion \<and>
   findMatchingNodes sampleDU sampleBody \<lparr>rangeStart = 4, rangeEnd = 10\<rparr> 20 =
     Some \<lparr>done' = True, nodes = [Elt 4 (Some [Some 4, Some 10]) [] [TextNode 6 ''efghij'']]\<rparr> \<and>
   sampleTransclusion \<notin>
     set [Elt 4 (Some [Some 4, Some 10]) [] [TextNode 6 ''efghij'']]"
  by code_simp

text \<open>
  C4, amended: what the loop leaves out behind an encapsulated child are the siblings
  \<open>skipOverEncapsulatedContent\<close> passes over. Every node \<open>findMatchingNodes\<close> returns is
  the root, or is reached from it through children the loop comes to: a sibling passed
  over, and what is below it, is returned only inside an ancestor returned whole.
\<close>

theorem skipped_siblings_never_matched:
  assumes "findMatchingNodes du root tr sl = Some r"
  shows "set (nodes r) \<subseteq> set (reachableNodes du root)"
proof -
  obtain st' where "walkDOM du tr sl root initialState = (Some r, st')"
    using assms by (cases "walkDOM du tr sl root initialState") (simp add: findMatchingNodes_def)
  then show ?thesis using walk_reachable(1)[of du tr sl root initialState] by blast
qed

theorem skipped_siblings_never_matched_witness:
  "findMatchingNodes skippingDU sampleAbout \<lparr>rangeStart = 0, rangeEnd = 12\<rparr> 15 =
     Some \<lparr>done' = True, nodes = [Elt 4 (Some [Some 10, Some 15]) [] []]\<rparr> \<and>
   set (nodes \<lparr>done' = True, nodes = [Elt 4 (Some [Some 10, Some 15]) [] []]\<rparr>)
     \<subseteq> set (reachableNodes skippingDU sampleAbout) \<and>
   Elt 3 (Some [Some 5, Some 10]) [] [] \<notin> set (reachableNodes skippingDU sampleAbout)"
proof -
  have e: "findMatchingNodes skippingDU sampleAbout \<lparr>rangeStart = 0, rangeEnd = 12\<rparr> 15 =
     Some \<lparr>done' = True, nodes = [Elt 4 (Some [Some 10, Some 15]) [] []]\<rparr>"
    by code_simp
  have n: "Elt 3 (Some [Some 5, Some 10]) [] [] \<notin> set (reachableNodes skippingDU sampleAbout)"
    by code_simp
  from skipped_siblings_never_matched [OF e] e n show ?thesis by blast
qed

section \<open>Properties of the Significance Classifier\<close>

text \<open>
  The loop in closed form. A pair once adjusted no longer meets the test of lines 387 to
  389, so the store behind the loop holds every pair of \<open>offsets\<close> adjusted once, and
  each result is the one computed from the pair it refers to.
\<close>
lemma diffRegion_eq:
  "diffRegion du d r h =
     (regionResult du d r (adjusted d (h r)), h(r := adjusted d (h r)),
      regionCalls du d (adjusted d (h r)))"
proof -
  have h1: "(if implicitlyClosed d (h r) then h(r := decrementOldStart (h r)) else h)
              = h(r := adjusted d (h r))"
    by (auto simp: adjusted_def)
  show ?thesis
    unfolding diffRegion_def h1
    by (simp add: Let_def regionResult_def regionHtmlDiff_def excerptsDiffer_def
        matchedHTML_def regionCalls_def)
qed

lemma adjusted_stable: "\<not> implicitlyClosed d (adjusted d offs)"
  by (auto simp: adjusted_def implicitlyClosed_def decrementOldStart_def)

lemma adjusted_idem: "adjusted d (adjusted d offs) = adjusted d offs"
  using adjusted_stable[of d offs] by (simp add: adjusted_def[of d "adjusted d offs"])

lemma fullDiffs_store:
  "fullDiffs du d rs h = (results, h', calls) \<Longrightarrow>
     h' = (\<lambda>x. if x \<in> set rs then adjusted d (h x) else h x)"
proof (induction rs arbitrary: h results h' calls)
  case Nil
  then show ?case by simp
next
  case (Cons r rs)
  let ?h1 = "h(r := adjusted d (h r))"
  obtain res2 h2 c2 where f: "fullDiffs du d rs ?h1 = (res2, h2, c2)"
    by (cases "fullDiffs du d rs ?h1")
  with Cons.prems have h': "h' = h2" by (simp add: diffRegion_eq)
  have "h2 = (\<lambda>x. if x \<in> set rs then adjusted d (?h1 x) else ?h1 x)"
    by (rule Cons.IH[OF f])
  then show ?case unfolding h' by (auto simp: adjusted_idem)
qed

lemma fullDiffs_results:
  "fullDiffs du d rs h = (results, h', calls) \<Longrightarrow>
     results = map (\<lambda>r. regionResult du d r (h' r)) rs"
proof (induction rs arbitrary: h results h' calls)
  case Nil
  then show ?case by simp
next
  case (Cons r rs)
  let ?h1 = "h(r := adjusted d (h r))"
  obtain res2 h2 c2 where f: "fullDiffs du d rs ?h1 = (res2, h2, c2)"
    by (cases "fullDiffs du d rs ?h1")
  with Cons.prems have h': "h' = h2"
    and r: "results = regionResult du d r (adjusted d (h r)) # res2"
    by (auto simp: diffRegion_eq)
  have res2: "res2 = map (\<lambda>r. regionResult du d r (h2 r)) rs" by (rule Cons.IH[OF f])
  have "h2 = (\<lambda>x. if x \<in> set rs then adjusted d (?h1 x) else ?h1 x)"
    by (rule fullDiffs_store[OF f])
  then have "h2 r = adjusted d (h r)" by (simp add: adjusted_idem)
  then show ?case using r res2 h' by simp
qed

lemma fullDiffs_calls:
  "fullDiffs du d rs h = (results, h', calls) \<Longrightarrow>
     calls = concat (map (\<lambda>r. regionCalls du d (h' r)) rs)"
proof (induction rs arbitrary: h results h' calls)
  case Nil
  then show ?case by simp
next
  case (Cons r rs)
  let ?h1 = "h(r := adjusted d (h r))"
  obtain res2 h2 c2 where f: "fullDiffs du d rs ?h1 = (res2, h2, c2)"
    by (cases "fullDiffs du d rs ?h1")
  with Cons.prems have h': "h' = h2"
    and r: "calls = regionCalls du d (adjusted d (h r)) @ c2"
    by (auto simp: diffRegion_eq)
  have c2: "c2 = concat (map (\<lambda>r. regionCalls du d (h2 r)) rs)" by (rule Cons.IH[OF f])
  have "h2 = (\<lambda>x. if x \<in> set rs then adjusted d (?h1 x) else ?h1 x)"
    by (rule fullDiffs_store[OF f])
  then have "h2 r = adjusted d (h r)" by (simp add: adjusted_idem)
  then show ?case using r c2 h' by simp
qed

lemma offset_regionResult: "offset (regionResult du d r offs) = r"
  by (simp add: regionResult_def)

lemma checkIfSignificant_offsets:
  "map offset (fst (checkIfSignificant du offsets d h)) = offsets"
proof (cases "quickTest du d")
  case True
  then show ?thesis by (simp add: checkIfSignificant_def comp_def)
next
  case False
  obtain results h' calls where f: "fullDiffs du d offsets h = (results, h', calls)"
    by (cases "fullDiffs du d offsets h")
  have "results = map (\<lambda>r. regionResult du d r (h' r)) offsets"
    by (rule fullDiffs_results[OF f])
  then have "map offset results = offsets"
    by (simp add: comp_def offset_regionResult)
  with False f show ?thesis by (simp add: checkIfSignificant_def)
qed

text \<open>
  C1: when neither body is marked as fostered and the two bodies normalize to the same
  markup, there is one result for each offset pair, in order, of kind \<open>skip\<close>, with the
  excerpt of no context; no pair is changed, and neither the Node Matcher nor
  \<open>Diff.htmlDiff\<close> is called.
\<close>

theorem fast_path_all_skip:
  assumes "\<not> fosteredTest (outerHTML du (oldBody d))"
    and "\<not> fosteredTest (outerHTML du (newBody d))"
    and "normalizeOutBody du (oldBody d) = normalizeOutBody du (newBody d)"
  shows "length (fst (checkIfSignificant du offsets d h)) = length offsets \<and>
         (\<forall>i < length offsets.
            kind (fst (checkIfSignificant du offsets d h) ! i) = Skip \<and>
            offset (fst (checkIfSignificant du offsets d h) ! i) = offsets ! i \<and>
            wtDiff (fst (checkIfSignificant du offsets d h) ! i) =
              ''----'' @ [nl] @
              substring (oldWt d) (rangeStart (oldRange (h (offsets ! i))))
                (rangeEnd (oldRange (h (offsets ! i)))) @
              [nl] @ ''++++'' @ [nl] @
              substring (newWt d) (rangeStart (newRange (h (offsets ! i))))
                (rangeEnd (newRange (h (offsets ! i)))) \<and>
            htmlDiffOf (fst (checkIfSignificant du offsets d h) ! i) = None) \<and>
         fst (snd (checkIfSignificant du offsets d h)) = h \<and>
         snd (snd (checkIfSignificant du offsets d h)) = []"
proof -
  have q: "quickTest du d" using assms(1,3) by (simp add: quickTest_def)
  have c: "checkIfSignificant du offsets d h =
             (map (\<lambda>r. \<lparr>kind = Skip, offset = r,
                         wtDiff = formatDiff (oldWt d) (newWt d) (h r) 0, htmlDiffOf = None\<rparr>)
                offsets,
              h, [])"
    using q by (simp add: checkIfSignificant_def)
  show ?thesis unfolding c by (simp add: formatDiff_def)
qed

theorem fast_path_all_skip_witness:
  "length (fst (checkIfSignificant sampleDU [0] sampleSame sampleStore)) = length [0::nat] \<and>
   kind (fst (checkIfSignificant sampleDU [0] sampleSame sampleStore) ! 0) = Skip \<and>
   offset (fst (checkIfSignificant sampleDU [0] sampleSame sampleStore) ! 0) = 0 \<and>
   fst (snd (checkIfSignificant sampleDU [0] sampleSame sampleStore)) = sampleStore \<and>
   snd (snd (checkIfSignificant sampleDU [0] sampleSame sampleStore)) = []"
proof -
  have 1: "\<not> fosteredTest (outerHTML sampleDU (oldBody sampleSame))" by code_simp
  have 2: "\<not> fosteredTest (outerHTML sampleDU (newBody sampleSame))" by code_simp
  have 3: "normalizeOutBody sampleDU (oldBody sampleSame) =
           normalizeOutBody sampleDU (newBody sampleSame)" by code_simp
  from fast_path_all_skip [OF 1 2 3, of "[0]" sampleStore] show ?thesis by simp
qed

text \<open>
  C2: behind the quick test, every result is of kind \<open>fail\<close> exactly when the HTML diff
  of the fragments matched for its pair is not empty and the normalized excerpts differ;
  then it carries that diff and the excerpt with 25 code units of context, otherwise it
  is of kind \<open>skip\<close> with the excerpt of no context and no HTML diff. The pair is the one
  the result refers to, as the loop leaves it.
\<close>

theorem two_stage_promotion:
  assumes "\<not> quickTest du d"
    and "checkIfSignificant du offsets d h = (results, h', calls)"
    and "res \<in> set results"
  shows "(kind res = Fail \<longleftrightarrow>
            regionHtmlDiff du d (h' (offset res)) \<noteq> [] \<and> excerptsDiffer d (h' (offset res))) \<and>
         (kind res = Fail \<longrightarrow>
            htmlDiffOf res = Some (regionHtmlDiff du d (h' (offset res))) \<and>
            wtDiff res =
              ''----'' @ [nl] @
              substring (oldWt d) (rangeStart (oldRange (h' (offset res))) - 25)
                (rangeEnd (oldRange (h' (offset res))) + 25) @
              [nl] @ ''++++'' @ [nl] @
              substring (newWt d) (rangeStart (newRange (h' (offset res))) - 25)
                (rangeEnd (newRange (h' (offset res))) + 25)) \<and>
         (kind res \<noteq> Fail \<longrightarrow>
            kind res = Skip \<and> htmlDiffOf res = None \<and>
            wtDiff res =
              ''----'' @ [nl] @
              substring (oldWt d) (rangeStart (oldRange (h' (offset res))))
                (rangeEnd (oldRange (h' (offset res)))) @
              [nl] @ ''++++'' @ [nl] @
              substring (newWt d) (rangeStart (newRange (h' (offset res))))
                (rangeEnd (newRange (h' (offset res)))))"
proof -
  have f: "fullDiffs du d offsets h = (results, h', calls)"
    using assms(1,2) by (simp add: checkIfSignificant_def)
  have "results = map (\<lambda>r. regionResult du d r (h' r)) offsets"
    by (rule fullDiffs_results[OF f])
  with assms(3) obtain r where r: "res = regionResult du d r (h' r)" by auto
  then have o: "offset res = r" by (simp add: regionResult_def)
  show ?thesis unfolding o unfolding r by (simp add: regionResult_def formatDiff_def)
qed

theorem two_stage_promotion_witness:
  "kind (hd (fst (checkIfSignificant sampleDU [0] sampleChanged changedStore))) = Fail \<and>
   htmlDiffOf (hd (fst (checkIfSignificant sampleDU [0] sampleChanged changedStore))) =
     Some (regionHtmlDiff sampleDU sampleChanged (changedStore 0)) \<and>
   regionHtmlDiff sampleDU sampleChanged (changedStore 0) \<noteq> [] \<and>
   excerptsDiffer sampleChanged (changedStore 0)"
proof -
  obtain results h' calls where
    c: "checkIfSignificant sampleDU [0] sampleChanged changedStore = (results, h', calls)"
    by (cases "checkIfSignificant sampleDU [0] sampleChanged changedStore")
  have q: "\<not> quickTest sampleDU sampleChanged" by code_simp
  have k: "kind (hd (fst (checkIfSignificant sampleDU [0] sampleChanged changedStore))) = Fail"
    by code_simp
  have o: "offset (hd (fst (checkIfSignificant sampleDU [0] sampleChanged changedStore))) = 0"
    by code_simp
  have s: "fst (snd (checkIfSignificant sampleDU [0] sampleChanged changedStore)) 0 = changedStore 0"
    by code_simp
  have l: "length (fst (checkIfSignificant sampleDU [0] sampleChanged changedStore)) = 1"
    by code_simp
  then have m: "hd results \<in> set results" using c by (cases results) auto
  from two_stage_promotion [OF q c m] k o s c show ?thesis by simp
qed

text \<open>
  Where no \<open>data-parsoid\<close> attribute is malformed, the classifier returns one result for
  each offset pair, in order; and where the Node Matcher returns \<open>null\<close> for the old or
  the new range of a pair, the nodes taken are none and \<open>Diff.htmlDiff\<close> is called on
  the markup of the empty fragment.
\<close>

lemma results_in_order:
  "length (fst (checkIfSignificant du offsets d h)) = length offsets \<and>
   map offset (fst (checkIfSignificant du offsets d h)) = offsets \<and>
   (\<forall>r \<in> set offsets. \<not> quickTest du d \<longrightarrow>
      (let offs = fst (snd (checkIfSignificant du offsets d h)) r;
           calls = snd (snd (checkIfSignificant du offsets d h))
       in HtmlDiff (matchedHTML du (oldBody d) (oldRange offs) (oldWt d))
                   (matchedHTML du (newBody d) (newRange offs) (newWt d)) \<in> set calls \<and>
          (findMatchingNodes du (oldBody d) (oldRange offs) (int (length (oldWt d))) = None \<longrightarrow>
             matchedHTML du (oldBody d) (oldRange offs) (oldWt d) =
               formatHTML du (normalizeOut du [])) \<and>
          (findMatchingNodes du (newBody d) (newRange offs) (int (length (newWt d))) = None \<longrightarrow>
             matchedHTML du (newBody d) (newRange offs) (newWt d) =
               formatHTML du (normalizeOut du []))))"
proof (intro conjI ballI impI)
  have "length (map offset (fst (checkIfSignificant du offsets d h))) = length offsets"
    by (simp only: checkIfSignificant_offsets)
  then show "length (fst (checkIfSignificant du offsets d h)) = length offsets" by simp
next
  show "map offset (fst (checkIfSignificant du offsets d h)) = offsets"
    by (rule checkIfSignificant_offsets)
next
  fix r
  assume r: "r \<in> set offsets" and q: "\<not> quickTest du d"
  obtain results h' calls where f: "fullDiffs du d offsets h = (results, h', calls)"
    by (cases "fullDiffs du d offsets h")
  have c: "calls = concat (map (\<lambda>r. regionCalls du d (h' r)) offsets)"
    by (rule fullDiffs_calls[OF f])
  have "set (regionCalls du d (h' r)) \<subseteq> set calls" using r c by auto
  then have "HtmlDiff (matchedHTML du (oldBody d) (oldRange (h' r)) (oldWt d))
                      (matchedHTML du (newBody d) (newRange (h' r)) (newWt d)) \<in> set calls"
    by (simp add: regionCalls_def)
  with q f show
    "let offs = fst (snd (checkIfSignificant du offsets d h)) r;
         calls = snd (snd (checkIfSignificant du offsets d h))
     in HtmlDiff (matchedHTML du (oldBody d) (oldRange offs) (oldWt d))
                 (matchedHTML du (newBody d) (newRange offs) (newWt d)) \<in> set calls \<and>
        (findMatchingNodes du (oldBody d) (oldRange offs) (int (length (oldWt d))) = None \<longrightarrow>
           matchedHTML du (oldBody d) (oldRange offs) (oldWt d) =
             formatHTML du (normalizeOut du [])) \<and>
        (findMatchingNodes du (newBody d) (newRange offs) (int (length (newWt d))) = None \<longrightarrow>
           matchedHTML du (newBody d) (newRange offs) (newWt d) =
             formatHTML du (normalizeOut du []))"
    by (simp add: checkIfSignificant_def Let_def matchedHTML_def matchedNodes_def
        fragmentHTML_def)
qed

lemma results_in_order_example:
  "length (fst (checkIfSignificant sampleDU [0] sampleClosed sampleStore)) = length [0::nat] \<and>
   findMatchingNodes sampleDU (oldBody sampleClosed) \<lparr>rangeStart = 3, rangeEnd = 4\<rparr> 4 = None \<and>
   HtmlDiff [] [] \<in> set (snd (snd (checkIfSignificant sampleDU [0] sampleClosed sampleStore)))"
proof -
  have n: "findMatchingNodes sampleDU (oldBody sampleClosed) \<lparr>rangeStart = 3, rangeEnd = 4\<rparr> 4 = None"
    by code_simp
  have e: "HtmlDiff [] [] \<in> set (snd (snd (checkIfSignificant sampleDU [0] sampleClosed sampleStore)))"
    by code_simp
  from results_in_order [of sampleDU "[0]" sampleClosed sampleStore] n e
  show ?thesis by blast
qed

text \<open>
  The matcher and the classifier with the \<open>throw\<close> return what \<open>walkDOM\<close> and
  \<open>checkIfSignificant\<close> return, whenever they return; and they do return when no
  attribute is malformed.
\<close>

lemma singleChildR_Inr:
  "singleChildR m tr mc dn st = Inr x \<Longrightarrow> singleChild tr mc dn st = x"
  by (auto simp: singleChildR_def split: list.splits node.splits if_splits)

lemma singleChildR_empty: "singleChildR {} tr mc dn st = Inr (singleChild tr mc dn st)"
  by (auto simp: singleChildR_def split: list.splits node.splits)

lemma elementStepR_Inr:
  "elementStepR m du tr dp c res els pre st = Inr x \<Longrightarrow> elementStep du tr dp c res els pre st = x"
  by (auto simp: elementStepR_def elementStep_def
      split: option.splits prod.splits sum.splits if_splits dest!: singleChildR_Inr)

lemma elementStepR_empty:
  "elementStepR {} du tr dp c res els pre st = Inr (elementStep du tr dp c res els pre st)"
  by (auto simp: elementStepR_def elementStep_def singleChildR_empty
      split: option.splits prod.splits)

lemma walkR_returns:
  "(\<forall>x. walkDOMR m du tr sl n st = Inr x \<longrightarrow> walkDOM du tr sl n st = x)"
  "(\<forall>x. walkChildrenR m du tr sl dp cs els pre st = Inr x \<longrightarrow>
        walkChildren du tr sl dp cs els pre st = x)"
proof (induction m du tr sl n st and m du tr sl dp cs els pre st
       rule: walkDOMR_walkChildrenR.induct)
  case (1 malformed du targetRange sourceLen i v st)
  show ?case by simp
next
  case (2 malformed du targetRange sourceLen i v st)
  show ?case by simp
next
  case (3 m du tr sl i dp ty kids st)
  obtain x y where xy: "checkSpan tr sl (Elt i dp ty kids) dp (visit i st) = (x, y)"
    by (cases "checkSpan tr sl (Elt i dp ty kids) dp (visit i st)")
  show ?case
  proof (cases x)
    case (Return r)
    with xy show ?thesis by simp
  next
    case Proceed
    have ih: "\<forall>x. walkChildrenR m du tr sl dp kids [] [] y = Inr x \<longrightarrow>
                  walkChildren du tr sl dp kids [] [] y = x"
      by (rule "3.IH"[OF xy[symmetric] Proceed])
    show ?thesis using xy Proceed ih
      by (auto split: sum.splits prod.splits)
  qed
next
  case (4 malformed du targetRange sourceLen dp elements precedingNodes st)
  show ?case by simp
next
  case (5 m du tr sl dp c cs els pre st)
  let ?st = "st\<lparr>wasWaiting := waitingForEndMatch st\<rparr>"
  let ?stepR = "(if isElt c
            then case walkDOMR m du tr sl c ?st of
                 Inl e \<Rightarrow> Inl e
               | Inr (res, x) \<Rightarrow> elementStepR m du tr dp c res els pre x
            else Inr (textStep du tr c els pre ?st))"
  let ?step = "(if isElt c
            then case walkDOM du tr sl c ?st of
                 (res, x) \<Rightarrow> elementStep du tr dp c res els pre x
            else textStep du tr c els pre ?st)"
  show ?case
  proof (intro allI impI)
    fix x
    assume a: "walkChildrenR m du tr sl dp (c # cs) els pre st = Inr x"
    then obtain b where b: "?stepR = Inr b" by (auto split: sum.splits)
    have step: "?step = b"
    proof (cases "isElt c")
      case False
      with b show ?thesis by simp
    next
      case True
      with b obtain res s1 where w: "walkDOMR m du tr sl c ?st = Inr (res, s1)"
        and e: "elementStepR m du tr dp c res els pre s1 = Inr b"
        by (auto split: sum.splits prod.splits)
      have "walkDOM du tr sl c ?st = (res, s1)" using "5.IH"(1)[OF True] w by simp
      moreover have "elementStep du tr dp c res els pre s1 = b" by (rule elementStepR_Inr[OF e])
      ultimately show ?thesis using True by simp
    qed
    obtain z y where zy: "b = (z, y)" by (cases b)
    show "walkChildren du tr sl dp (c # cs) els pre st = x"
    proof (cases z)
      case (Inl r)
      with a b zy step show ?thesis by simp
    next
      case (Inr ba)
      obtain xa ya where ba: "ba = (xa, ya)" by (cases ba)
      show ?thesis
      proof (cases "wasWaiting y \<and> \<not> waitingForEndMatch y")
        case True
        with a b zy Inr ba step show ?thesis by simp
      next
        case False
        have r: "walkChildrenR m du tr sl dp (nextSiblings du c cs) xa ya y = Inr x"
          using a b zy Inr ba False by auto
        have "walkChildren du tr sl dp (nextSiblings du c cs) xa ya y = x"
          using "5.IH"(2)[OF b zy[symmetric] Inr ba[symmetric] False] r by simp
        then show ?thesis using b zy Inr ba False step by auto
      qed
    qed
  qed
qed

lemma walkR_well_formed:
  "walkDOMR {} du tr sl n st = Inr (walkDOM du tr sl n st)"
  "walkChildrenR {} du tr sl dp cs els pre st = Inr (walkChildren du tr sl dp cs els pre st)"
proof (induction du tr sl n st and du tr sl dp cs els pre st rule: walkDOM_walkChildren.induct)
  case (1 du targetRange sourceLen i v st)
  show ?case by simp
next
  case (2 du targetRange sourceLen i v st)
  show ?case by simp
next
  case (3 du tr sl i dp ty kids st)
  obtain x y where xy: "checkSpan tr sl (Elt i dp ty kids) dp (visit i st) = (x, y)"
    by (cases "checkSpan tr sl (Elt i dp ty kids) dp (visit i st)")
  show ?case
  proof (cases x)
    case (Return r)
    with xy show ?thesis by simp
  next
    case Proceed
    have "walkChildrenR {} du tr sl dp kids [] [] y = Inr (walkChildren du tr sl dp kids [] [] y)"
      by (rule "3.IH"[OF xy[symmetric] Proceed])
    then show ?thesis using xy Proceed by (auto split: sum.splits prod.splits)
  qed
next
  case (4 du targetRange sourceLen dp elements precedingNodes st)
  show ?case by simp
next
  case (5 du tr sl dp c cs els pre st)
  let ?st = "st\<lparr>wasWaiting := waitingForEndMatch st\<rparr>"
  let ?stepR = "(if isElt c
            then case walkDOMR {} du tr sl c ?st of
                 Inl e \<Rightarrow> Inl e
               | Inr (res, x) \<Rightarrow> elementStepR {} du tr dp c res els pre x
            else Inr (textStep du tr c els pre ?st))"
  let ?step = "(if isElt c
            then case walkDOM du tr sl c ?st of
                 (res, x) \<Rightarrow> elementStep du tr dp c res els pre x
            else textStep du tr c els pre ?st)"
  have step: "?stepR = Inr ?step"
  proof (cases "isElt c")
    case False
    then show ?thesis by simp
  next
    case True
    have "walkDOMR {} du tr sl c ?st = Inr (walkDOM du tr sl c ?st)" by (rule "5.IH"(1)[OF True])
    then show ?thesis using True by (simp add: elementStepR_empty split: prod.splits)
  qed
  obtain z y where zy: "?step = (z, y)" by (cases ?step)
  show ?case
  proof (cases z)
    case (Inl r)
    with step zy show ?thesis by simp
  next
    case (Inr ba)
    obtain xa ya where ba: "ba = (xa, ya)" by (cases ba)
    show ?thesis
    proof (cases "wasWaiting y \<and> \<not> waitingForEndMatch y")
      case True
      with step zy Inr ba show ?thesis by simp
    next
      case False
      have "walkChildrenR {} du tr sl dp (nextSiblings du c cs) xa ya y =
              Inr (walkChildren du tr sl dp (nextSiblings du c cs) xa ya y)"
        by (rule "5.IH"(2)[OF zy[symmetric] Inr ba[symmetric] False])
      then show ?thesis using step zy Inr ba False by auto
    qed
  qed
qed

lemma findMatchingNodesR_well_formed:
  "findMatchingNodesR {} du root tr sl = Inr (findMatchingNodes du root tr sl)"
  by (simp add: findMatchingNodesR_def findMatchingNodes_def walkR_well_formed(1)
      split: prod.splits)

lemma diffRegionR_well_formed: "diffRegionR {} du d r h = Inr (diffRegion du d r h)"
  by (simp add: diffRegionR_def diffRegion_def findMatchingNodesR_well_formed Let_def)

lemma fullDiffsR_well_formed: "fullDiffsR {} du d rs h = Inr (fullDiffs du d rs h)"
  by (induction rs arbitrary: h) (auto simp: diffRegionR_well_formed split: prod.splits)

lemma checkIfSignificantR_well_formed:
  "checkIfSignificantR {} du offsets d h = Inr (checkIfSignificant du offsets d h)"
  by (simp add: checkIfSignificantR_def checkIfSignificant_def fullDiffsR_well_formed)

text \<open>
  C8: \<open>checkIfSignificant\<close> never raises an error, whatever the offsets and the
  documents. It does: line 166 reads \<open>data-parsoid\<close> through the guarded helper, but
  line 233 parses the same attribute of a single matched element with a bare
  \<open>JSON.parse\<close>. In the body below the element 2 with the malformed attribute holds the
  text of the region and comes back from the walk as the one matched child; the matcher
  and with it the classifier end in a \<open>SyntaxError\<close>. The same document with the
  attribute left out is classified.
\<close>

theorem malformed_attribute_raises:
  "findMatchingNodesR {2} sampleDU (oldBody sampleMalformed) \<lparr>rangeStart = 0, rangeEnd = 3\<rparr> 5 =
     Inl SyntaxError \<and>
   (case checkIfSignificantR {2} sampleDU [0] sampleMalformed malformedStore of
      Inl e \<Rightarrow> e = SyntaxError
    | Inr x \<Rightarrow> False) \<and>
   (case checkIfSignificantR {} sampleDU [0] sampleMalformed malformedStore of
      Inl e \<Rightarrow> False
    | Inr x \<Rightarrow> map kind (fst x) = [Fail])"
  by code_simp

text \<open>
  C10, as stated: the old start of every pair that meets the test of lines 387 to 389 is
  taken down by one in the caller's object. When the quick test succeeds the loop that
  does so is never entered, and the pair stays as it was.
\<close>

theorem fast_path_keeps_offsets:
  "implicitlyClosed sampleSame (sampleStore 0) \<and>
   fst (snd (checkIfSignificant sampleDU [0] sampleSame sampleStore)) 0 = sampleStore 0"
  by code_simp

text \<open>
  C10, amended: when the quick test does not succeed, the old start of every pair of
  \<open>offsets\<close> that meets the test of lines 387 to 389 is one less in the store behind the
  call, and nothing else of the pair has changed; the result at its place refers to this
  same pair, so a report made from the result prints the lowered start.
\<close>

theorem implicit_close_mutates_offsets:
  assumes "\<not> quickTest du d"
    and "checkIfSignificant du offsets d h = (results, h', calls)"
    and "i < length offsets"
    and "implicitlyClosed d (h (offsets ! i))"
  shows "h' (offsets ! i) = decrementOldStart (h (offsets ! i)) \<and>
         rangeStart (oldRange (h' (offsets ! i))) = rangeStart (oldRange (h (offsets ! i))) - 1 \<and>
         rangeEnd (oldRange (h' (offsets ! i))) = rangeEnd (oldRange (h (offsets ! i))) \<and>
         newRange (h' (offsets ! i)) = newRange (h (offsets ! i)) \<and>
         offset (results ! i) = offsets ! i \<and>
         reportedCharacter h' (results ! i) = rangeStart (oldRange (h (offsets ! i))) - 1"
proof -
  have f: "fullDiffs du d offsets h = (results, h', calls)"
    using assms(1,2) by (simp add: checkIfSignificant_def)
  have "h' = (\<lambda>x. if x \<in> set offsets then adjusted d (h x) else h x)"
    by (rule fullDiffs_store[OF f])
  then have 1: "h' (offsets ! i) = decrementOldStart (h (offsets ! i))"
    using assms(3,4) by (simp add: adjusted_def)
  have "map offset results = offsets"
    using checkIfSignificant_offsets[of du offsets d h] assms(2) by simp
  then have 2: "offset (results ! i) = offsets ! i"
    using assms(3) by (metis length_map nth_map)
  show ?thesis using 1 2 by (simp add: reportedCharacter_def decrementOldStart_def)
qed

theorem implicit_close_mutates_offsets_witness:
  "rangeStart (oldRange (sampleStore 0)) = 4 \<and>
   rangeStart (oldRange (fst (snd (checkIfSignificant sampleDU [0] sampleClosed sampleStore)) 0)) = 3 \<and>
   reportedCharacter (fst (snd (checkIfSignificant sampleDU [0] sampleClosed sampleStore)))
     (fst (checkIfSignificant sampleDU [0] sampleClosed sampleStore) ! 0) = 3"
proof -
  obtain results h' calls where
    c: "checkIfSignificant sampleDU [0] sampleClosed sampleStore = (results, h', calls)"
    by (cases "checkIfSignificant sampleDU [0] sampleClosed sampleStore")
  have q: "\<not> quickTest sampleDU sampleClosed" by code_simp
  have i: "implicitlyClosed sampleClosed (sampleStore ([0] ! 0))" by code_simp
  have s: "rangeStart (oldRange (sampleStore 0)) = 4" by code_simp
  from implicit_close_mutates_offsets [OF q c _ i] s c show ?thesis
    by (simp add: decrementOldStart_def)
qed

end
